theory Spec2Isabelle
  imports Main "HOL-Library.Monad_Syntax"
begin

section \<open>Data model of the chess engine (useChessEngine)\<close>

datatype PieceType = King | Queen | Rook | Bishop | Knight | Pawn

datatype PieceColor = White | Black

datatype GameStatus = Playing | Check | Checkmate | Stalemate | Draw

datatype CastlingSide = Kingside | Queenside

text \<open>
  \<^verbatim>\<open>interface ChessPiece { type; color; hasMoved?: boolean }\<close>.
  The optional flag is only ever absent or \<^verbatim>\<open>true\<close> in the source and is only read
  through \<^verbatim>\<open>!piece.hasMoved\<close>, so absent is \<open>False\<close>.
\<close>

record ChessPiece =
  ptype :: PieceType
  color :: PieceColor
  hasMoved :: bool

text \<open>
  \<^verbatim>\<open>interface ChessSquare { row: number; col: number }\<close>. The engine only ever
  computes with whole numbers (offsets of \<open>\<plusminus>1\<close>, \<open>\<plusminus>2\<close> and the midpoint of a
  two-row pawn step), so the coordinates are integers.
\<close>

record ChessSquare =
  row :: int
  col :: int

record ChessMove =
  mv_from :: ChessSquare
  mv_to :: ChessSquare
  mv_piece :: ChessPiece
  capturedPiece :: "ChessPiece option"
  isCapture :: bool
  isCheck :: bool
  isCheckmate :: bool
  mv_notation :: string
  castling :: "CastlingSide option"
  enPassant :: bool
  promotion :: "PieceType option"

type_synonym Board = "ChessPiece option list list"

record GameState =
  board :: Board
  currentPlayer :: PieceColor
  selectedSquare :: "ChessSquare option"
  moveHistory :: "ChessMove list"
  gameStatus :: GameStatus
  enPassantTarget :: "ChessSquare option"

section \<open>Reading and writing the board\<close>

text \<open>
  Every function of the engine returns an \<open>option\<close>: \<open>None\<close> stands for a run of the
  source that yields no value (a \<^verbatim>\<open>TypeError\<close> from indexing \<^verbatim>\<open>undefined\<close>, a loop
  that never ends, or a write that leaves the array model, see \<open>boardSet\<close>).

  \<^verbatim>\<open>board[r][c]\<close>: a row index outside the array gives \<^verbatim>\<open>undefined\<close>, and indexing
  that raises. A column index outside the row reads \<^verbatim>\<open>undefined\<close>, which every
  test of the source (\<^verbatim>\<open>!target\<close>, \<^verbatim>\<open>piece && ...\<close>) treats like \<^verbatim>\<open>null\<close>.
\<close>

definition boardAt :: "Board \<Rightarrow> int \<Rightarrow> int \<Rightarrow> ChessPiece option option" where
  "boardAt b r c =
     (if 0 \<le> r \<and> r < int (length b)
      then (if 0 \<le> c \<and> c < int (length (b ! nat r))
            then Some ((b ! nat r) ! nat c) else Some None)
      else None)"

text \<open>
  \<^verbatim>\<open>board[r][c] = v\<close> on the copy of the board. A row index outside the array
  raises. A column index at or beyond the end of the row extends the row, as a
  JavaScript array does (the holes read as \<^verbatim>\<open>undefined\<close>). A negative column index
  would create a property that the list model cannot hold; it is reported as \<open>None\<close>.
\<close>

definition rowSet :: "ChessPiece option list \<Rightarrow> int \<Rightarrow> ChessPiece option \<Rightarrow> ChessPiece option list option" where
  "rowSet line c v =
     (if c < 0 then None
      else if c < int (length line) then Some (line[nat c := v])
      else Some (line @ replicate (nat c - length line) None @ [v]))"

definition boardSet :: "Board \<Rightarrow> int \<Rightarrow> int \<Rightarrow> ChessPiece option \<Rightarrow> Board option" where
  "boardSet b r c v =
     (if 0 \<le> r \<and> r < int (length b)
      then do { line \<leftarrow> rowSet (b ! nat r) c v; Some (b[nat r := line]) }
      else None)"

definition isInBounds :: "ChessSquare \<Rightarrow> bool" where
  "isInBounds square \<longleftrightarrow>
     row square \<ge> 0 \<and> row square < 8 \<and> col square \<ge> 0 \<and> col square < 8"

definition opponentOf :: "PieceColor \<Rightarrow> PieceColor" where
  "opponentOf c = (if c = White then Black else White)"

text \<open>The two nested \<^verbatim>\<open>for\<close> loops over rows and columns \<open>0..7\<close>, in their order.\<close>

definition indices :: "int list" where
  "indices = [0, 1, 2, 3, 4, 5, 6, 7]"

definition boardSquares :: "ChessSquare list" where
  "boardSquares = concat (map (\<lambda>r. map (\<lambda>c. \<lparr>row = r, col = c\<rparr>) indices) indices)"

text \<open>
  \<^verbatim>\<open>xs.forEach(x => { ... moves.push(...) ... })\<close>: the body is run on every element
  in order and what it pushes is appended; an exception in a body ends the whole call.
\<close>

fun forEachPush :: "('a \<Rightarrow> 'b list option) \<Rightarrow> 'a list \<Rightarrow> 'b list option" where
  "forEachPush f [] = Some []"
| "forEachPush f (x # xs) = do { ys \<leftarrow> f x; zs \<leftarrow> forEachPush f xs; Some (ys @ zs) }"

section \<open>Attack analysis\<close>

text \<open>
  The loop of \<^verbatim>\<open>isPathClear\<close>: walk from \<open>current\<close> in direction \<open>(rowDir, colDir)\<close>
  until \<open>to\<close> is reached; an occupied square on the way answers \<^verbatim>\<open>false\<close>. The source
  has no bounds test here: a walk that misses \<open>to\<close> leaves the board and raises, or never
  ends.
\<close>

partial_function (option) pathLoop :: "Board \<Rightarrow> int \<Rightarrow> int \<Rightarrow> ChessSquare \<Rightarrow> ChessSquare \<Rightarrow> bool option" where
  "pathLoop b rowDir colDir current to =
     (if row current \<noteq> row to \<or> col current \<noteq> col to
      then do {
        cell \<leftarrow> boardAt b (row current) (col current);
        if cell \<noteq> None then Some False
        else pathLoop b rowDir colDir \<lparr>row = row current + rowDir, col = col current + colDir\<rparr> to }
      else Some True)"

declare pathLoop.simps [code]

definition isPathClear :: "Board \<Rightarrow> ChessSquare \<Rightarrow> ChessSquare \<Rightarrow> bool option" where
  "isPathClear b frm to =
     (let rowDir = (if row to = row frm then 0 else (row to - row frm) div \<bar>row to - row frm\<bar>);
          colDir = (if col to = col frm then 0 else (col to - col frm) div \<bar>col to - col frm\<bar>)
      in pathLoop b rowDir colDir \<lparr>row = row frm + rowDir, col = col frm + colDir\<rparr> to)"

text \<open>
  \<^verbatim>\<open>const piece = board[from.row][from.col]!\<close> followed by a property read such as
  \<^verbatim>\<open>piece.type\<close>: binding an \<open>option\<close> in the monad is the read that raises on
  \<^verbatim>\<open>null\<close>.
\<close>

definition canPieceAttackSquare :: "Board \<Rightarrow> ChessSquare \<Rightarrow> ChessSquare \<Rightarrow> bool option" where
  "canPieceAttackSquare b frm to = do {
     cell \<leftarrow> boardAt b (row frm) (col frm);
     piece \<leftarrow> cell;
     case ptype piece of
       Pawn \<Rightarrow>
         (let direction = (if color piece = White then - 1 else 1)
          in Some (row to = row frm + direction \<and> \<bar>col to - col frm\<bar> = 1))
     | Rook \<Rightarrow>
         (if row frm = row to \<or> col frm = col to then isPathClear b frm to else Some False)
     | Knight \<Rightarrow>
         (let rowDiff = \<bar>row frm - row to\<bar>; colDiff = \<bar>col frm - col to\<bar>
          in Some ((rowDiff = 2 \<and> colDiff = 1) \<or> (rowDiff = 1 \<and> colDiff = 2)))
     | Bishop \<Rightarrow>
         (if \<bar>row frm - row to\<bar> = \<bar>col frm - col to\<bar> then isPathClear b frm to else Some False)
     | Queen \<Rightarrow>
         (if (row frm = row to \<or> col frm = col to) \<or> \<bar>row frm - row to\<bar> = \<bar>col frm - col to\<bar>
          then isPathClear b frm to else Some False)
     | King \<Rightarrow> Some (\<bar>row frm - row to\<bar> \<le> 1 \<and> \<bar>col frm - col to\<bar> \<le> 1) }"

text \<open>
  \<^verbatim>\<open>isSquareUnderAttack\<close>: scan the 64 squares in row-major order and answer
  \<^verbatim>\<open>true\<close> at the first piece of the attacking colour that can attack the square.
\<close>

fun attackScan :: "Board \<Rightarrow> ChessSquare \<Rightarrow> PieceColor \<Rightarrow> ChessSquare list \<Rightarrow> bool option" where
  "attackScan b square attackingColor [] = Some False"
| "attackScan b square attackingColor (frm # rest) = do {
     cell \<leftarrow> boardAt b (row frm) (col frm);
     case cell of
       None \<Rightarrow> attackScan b square attackingColor rest
     | Some piece \<Rightarrow>
         if color piece = attackingColor
         then do {
           hit \<leftarrow> canPieceAttackSquare b frm square;
           if hit then Some True else attackScan b square attackingColor rest }
         else attackScan b square attackingColor rest }"

definition isSquareUnderAttack :: "Board \<Rightarrow> ChessSquare \<Rightarrow> PieceColor \<Rightarrow> bool option" where
  "isSquareUnderAttack b square attackingColor = attackScan b square attackingColor boardSquares"

text \<open>
  The king search of \<^verbatim>\<open>isKingInCheck\<close>: the inner \<^verbatim>\<open>break\<close> and the outer
  \<^verbatim>\<open>if (kingPosition) break\<close> stop the scan at the first king in row-major order.
\<close>

fun findKing :: "Board \<Rightarrow> PieceColor \<Rightarrow> ChessSquare list \<Rightarrow> ChessSquare option option" where
  "findKing b kingColor [] = Some None"
| "findKing b kingColor (sq # rest) = do {
     cell \<leftarrow> boardAt b (row sq) (col sq);
     case cell of
       None \<Rightarrow> findKing b kingColor rest
     | Some piece \<Rightarrow>
         if ptype piece = King \<and> color piece = kingColor then Some (Some sq)
         else findKing b kingColor rest }"

definition isKingInCheck :: "Board \<Rightarrow> PieceColor \<Rightarrow> bool option" where
  "isKingInCheck b kingColor = do {
     kingPosition \<leftarrow> findKing b kingColor boardSquares;
     case kingPosition of
       None \<Rightarrow> Some False
     | Some pos \<Rightarrow> isSquareUnderAttack b pos (opponentOf kingColor) }"

section \<open>Move generation\<close>

text \<open>
  The three blocks of \<^verbatim>\<open>getPawnMoves\<close> (forward moves, captures, en passant), each
  returning what it pushes.
\<close>

definition pawnForward :: "Board \<Rightarrow> ChessSquare \<Rightarrow> int \<Rightarrow> int \<Rightarrow> ChessSquare list option" where
  "pawnForward b frm direction startRow =
     (let oneForward = \<lparr>row = row frm + direction, col = col frm\<rparr>
      in if isInBounds oneForward
         then do {
           c1 \<leftarrow> boardAt b (row oneForward) (col oneForward);
           if c1 = None
           then (if row frm = startRow
                 then (let twoForward = \<lparr>row = row frm + 2 * direction, col = col frm\<rparr>
                       in if isInBounds twoForward
                          then do {
                            c2 \<leftarrow> boardAt b (row twoForward) (col twoForward);
                            Some (if c2 = None then [oneForward, twoForward] else [oneForward]) }
                          else Some [oneForward])
                 else Some [oneForward])
           else Some [] }
         else Some [])"

definition pawnCaptures :: "Board \<Rightarrow> ChessSquare \<Rightarrow> ChessPiece \<Rightarrow> int \<Rightarrow> ChessSquare list option" where
  "pawnCaptures b frm piece direction =
     forEachPush (\<lambda>colOffset.
         let captureSquare = \<lparr>row = row frm + direction, col = col frm + colOffset\<rparr>
         in if isInBounds captureSquare
            then do {
              target \<leftarrow> boardAt b (row captureSquare) (col captureSquare);
              Some (case target of
                      None \<Rightarrow> []
                    | Some t \<Rightarrow> if color t \<noteq> color piece then [captureSquare] else []) }
            else Some [])
       [- 1, 1]"

definition pawnPassant :: "ChessSquare \<Rightarrow> int \<Rightarrow> ChessSquare option \<Rightarrow> ChessSquare list" where
  "pawnPassant frm direction enPassantTgt =
     (case enPassantTgt of
        None \<Rightarrow> []
      | Some t \<Rightarrow>
          if \<bar>col frm - col t\<bar> = 1 \<and> row frm = row t + direction
          then [\<lparr>row = row t, col = col t\<rparr>] else [])"

definition getPawnMoves :: "Board \<Rightarrow> ChessSquare \<Rightarrow> ChessSquare option \<Rightarrow> ChessSquare list option" where
  "getPawnMoves b frm enPassantTgt = do {
     cell \<leftarrow> boardAt b (row frm) (col frm);
     piece \<leftarrow> cell;
     let direction = (if color piece = White then - 1 else 1);
     let startRow = (if color piece = White then 6 else 1);
     forward \<leftarrow> pawnForward b frm direction startRow;
     captures \<leftarrow> pawnCaptures b frm piece direction;
     Some (forward @ captures @ pawnPassant frm direction enPassantTgt) }"

text \<open>
  The \<^verbatim>\<open>while (isInBounds(current))\<close> loop shared by \<^verbatim>\<open>getRookMoves\<close> and
  \<^verbatim>\<open>getBishopMoves\<close>. \<open>piece\<close> is the content of the origin square, read once before
  the loops; \<^verbatim>\<open>piece.color\<close> is only evaluated when a ray meets an occupied square.
\<close>

partial_function (option) slide :: "Board \<Rightarrow> ChessPiece option \<Rightarrow> ChessSquare \<Rightarrow> ChessSquare \<Rightarrow> ChessSquare list option" where
  "slide b piece dir current =
     (if isInBounds current
      then do {
        target \<leftarrow> boardAt b (row current) (col current);
        case target of
          None \<Rightarrow> do {
            rest \<leftarrow> slide b piece dir \<lparr>row = row current + row dir, col = col current + col dir\<rparr>;
            Some (current # rest) }
        | Some t \<Rightarrow> do { p \<leftarrow> piece; Some (if color t \<noteq> color p then [current] else []) } }
      else Some [])"

declare slide.simps [code]

definition slideAll :: "Board \<Rightarrow> ChessSquare \<Rightarrow> ChessSquare list \<Rightarrow> ChessSquare list option" where
  "slideAll b frm directions = do {
     piece \<leftarrow> boardAt b (row frm) (col frm);
     forEachPush (\<lambda>dir. slide b piece dir \<lparr>row = row frm + row dir, col = col frm + col dir\<rparr>)
       directions }"

definition rookDirections :: "ChessSquare list" where
  "rookDirections =
     [\<lparr>row = 0, col = 1\<rparr>, \<lparr>row = 0, col = - 1\<rparr>, \<lparr>row = 1, col = 0\<rparr>, \<lparr>row = - 1, col = 0\<rparr>]"

definition bishopDirections :: "ChessSquare list" where
  "bishopDirections =
     [\<lparr>row = 1, col = 1\<rparr>, \<lparr>row = 1, col = - 1\<rparr>, \<lparr>row = - 1, col = 1\<rparr>, \<lparr>row = - 1, col = - 1\<rparr>]"

definition getRookMoves :: "Board \<Rightarrow> ChessSquare \<Rightarrow> ChessSquare list option" where
  "getRookMoves b frm = slideAll b frm rookDirections"

definition getBishopMoves :: "Board \<Rightarrow> ChessSquare \<Rightarrow> ChessSquare list option" where
  "getBishopMoves b frm = slideAll b frm bishopDirections"

definition getQueenMoves :: "Board \<Rightarrow> ChessSquare \<Rightarrow> ChessSquare list option" where
  "getQueenMoves b frm = do {
     rs \<leftarrow> getRookMoves b frm;
     bs \<leftarrow> getBishopMoves b frm;
     Some (rs @ bs) }"

text \<open>
  The \<^verbatim>\<open>forEach\<close> over a fixed offset table shared by \<^verbatim>\<open>getKnightMoves\<close> and the
  normal moves of \<^verbatim>\<open>getKingMoves\<close>: the destination must be on the board and empty or
  hold a piece of the other colour.
\<close>

definition stepAll :: "Board \<Rightarrow> ChessPiece option \<Rightarrow> ChessSquare \<Rightarrow> ChessSquare list \<Rightarrow> ChessSquare list option" where
  "stepAll b piece frm offsets =
     forEachPush (\<lambda>move.
         let to = \<lparr>row = row frm + row move, col = col frm + col move\<rparr>
         in if isInBounds to
            then do {
              target \<leftarrow> boardAt b (row to) (col to);
              case target of
                None \<Rightarrow> Some [to]
              | Some t \<Rightarrow> do { p \<leftarrow> piece; Some (if color t \<noteq> color p then [to] else []) } }
            else Some [])
       offsets"

definition knightMoves :: "ChessSquare list" where
  "knightMoves =
     [\<lparr>row = - 2, col = - 1\<rparr>, \<lparr>row = - 2, col = 1\<rparr>,
      \<lparr>row = - 1, col = - 2\<rparr>, \<lparr>row = - 1, col = 2\<rparr>,
      \<lparr>row = 1, col = - 2\<rparr>, \<lparr>row = 1, col = 2\<rparr>,
      \<lparr>row = 2, col = - 1\<rparr>, \<lparr>row = 2, col = 1\<rparr>]"

definition getKnightMoves :: "Board \<Rightarrow> ChessSquare \<Rightarrow> ChessSquare list option" where
  "getKnightMoves b frm = do {
     piece \<leftarrow> boardAt b (row frm) (col frm);
     stepAll b piece frm knightMoves }"

definition kingMoves :: "ChessSquare list" where
  "kingMoves =
     [\<lparr>row = - 1, col = - 1\<rparr>, \<lparr>row = - 1, col = 0\<rparr>, \<lparr>row = - 1, col = 1\<rparr>,
      \<lparr>row = 0, col = - 1\<rparr>, \<lparr>row = 0, col = 1\<rparr>,
      \<lparr>row = 1, col = - 1\<rparr>, \<lparr>row = 1, col = 0\<rparr>, \<lparr>row = 1, col = 1\<rparr>]"

text \<open>\<^verbatim>\<open>testSquares.some(sq => isSquareUnderAttack(board, sq, attacker))\<close>.\<close>

fun someUnderAttack :: "Board \<Rightarrow> PieceColor \<Rightarrow> ChessSquare list \<Rightarrow> bool option" where
  "someUnderAttack b attacker [] = Some False"
| "someUnderAttack b attacker (sq # rest) = do {
     hit \<leftarrow> isSquareUnderAttack b sq attacker;
     if hit then Some True else someUnderAttack b attacker rest }"

text \<open>
  One side of the castling block of \<^verbatim>\<open>getKingMoves\<close>: the rook's column, the columns
  that must be empty, the two columns tested for attack, and the king's destination column.
\<close>

definition castleSide :: "Board \<Rightarrow> ChessSquare \<Rightarrow> ChessPiece \<Rightarrow> int \<Rightarrow> int list \<Rightarrow> int list \<Rightarrow> int \<Rightarrow> ChessSquare list option" where
  "castleSide b frm piece rookCol emptyCols testCols destCol = do {
     rook \<leftarrow> boardAt b (row frm) rookCol;
     case rook of
       None \<Rightarrow> Some []
     | Some r \<Rightarrow>
         if ptype r = Rook \<and> \<not> hasMoved r
         then do {
           cells \<leftarrow> those (map (\<lambda>c. boardAt b (row frm) c) emptyCols);
           if list_all (\<lambda>cell. cell = None) cells
           then do {
             attacked \<leftarrow> someUnderAttack b (if color piece = White then Black else White)
                          (map (\<lambda>c. \<lparr>row = row frm, col = c\<rparr>) testCols);
             Some (if \<not> attacked then [\<lparr>row = row frm, col = destCol\<rparr>] else []) }
           else Some [] }
         else Some [] }"

text \<open>
  The \<open>moveHistory\<close> parameter is received and never read, as in the source.
\<close>

definition getKingMoves :: "Board \<Rightarrow> ChessSquare \<Rightarrow> ChessMove list \<Rightarrow> ChessSquare list option" where
  "getKingMoves b frm history = do {
     cell \<leftarrow> boardAt b (row frm) (col frm);
     normal \<leftarrow> stepAll b cell frm kingMoves;
     piece \<leftarrow> cell;
     castle \<leftarrow>
       (if \<not> hasMoved piece
        then do {
          inCheck \<leftarrow> isKingInCheck b (color piece);
          if \<not> inCheck
          then do {
            kingSide \<leftarrow> castleSide b frm piece 7 [5, 6] [5, 6] 6;
            queenSide \<leftarrow> castleSide b frm piece 0 [1, 2, 3] [2, 3] 2;
            Some (kingSide @ queenSide) }
          else Some [] }
        else Some []);
     Some (normal @ castle) }"

section \<open>Legality filter\<close>

definition simulateMove :: "Board \<Rightarrow> ChessSquare \<Rightarrow> ChessSquare \<Rightarrow> Board option" where
  "simulateMove b frm to = do {
     piece \<leftarrow> boardAt b (row frm) (col frm);
     b1 \<leftarrow> boardSet b (row to) (col to) piece;
     boardSet b1 (row frm) (col frm) None }"

text \<open>\<^verbatim>\<open>moves.filter(to => !isKingInCheck(simulateMove(board, from, to), currentPlayer))\<close>.\<close>

fun filterLegal :: "Board \<Rightarrow> ChessSquare \<Rightarrow> PieceColor \<Rightarrow> ChessSquare list \<Rightarrow> ChessSquare list option" where
  "filterLegal b frm player [] = Some []"
| "filterLegal b frm player (to # rest) = do {
     testBoard \<leftarrow> simulateMove b frm to;
     inCheck \<leftarrow> isKingInCheck testBoard player;
     kept \<leftarrow> filterLegal b frm player rest;
     Some (if \<not> inCheck then to # kept else kept) }"

text \<open>The \<^verbatim>\<open>switch (piece.type)\<close> of \<^verbatim>\<open>getValidMoves\<close>.\<close>

definition pieceMoves :: "Board \<Rightarrow> ChessSquare \<Rightarrow> ChessPiece \<Rightarrow> ChessSquare option \<Rightarrow> ChessMove list \<Rightarrow> ChessSquare list option" where
  "pieceMoves b frm piece enPassantTgt history =
     (case ptype piece of
        Pawn \<Rightarrow> getPawnMoves b frm enPassantTgt
      | Rook \<Rightarrow> getRookMoves b frm
      | Knight \<Rightarrow> getKnightMoves b frm
      | Bishop \<Rightarrow> getBishopMoves b frm
      | Queen \<Rightarrow> getQueenMoves b frm
      | King \<Rightarrow> getKingMoves b frm history)"

definition getValidMoves :: "Board \<Rightarrow> ChessSquare \<Rightarrow> PieceColor \<Rightarrow> ChessSquare option \<Rightarrow> ChessMove list \<Rightarrow> ChessSquare list option" where
  "getValidMoves b frm player enPassantTgt history = do {
     cell \<leftarrow> boardAt b (row frm) (col frm);
     case cell of
       None \<Rightarrow> Some []
     | Some piece \<Rightarrow>
         if color piece \<noteq> player then Some []
         else do {
           moves \<leftarrow> pieceMoves b frm piece enPassantTgt history;
           filterLegal b frm player moves } }"

definition isValidMoveAttempt :: "Board \<Rightarrow> ChessSquare \<Rightarrow> ChessSquare \<Rightarrow> PieceColor \<Rightarrow> ChessSquare option \<Rightarrow> ChessMove list \<Rightarrow> bool option" where
  "isValidMoveAttempt b frm to player enPassantTgt history = do {
     cell \<leftarrow> boardAt b (row frm) (col frm);
     case cell of
       None \<Rightarrow> Some False
     | Some piece \<Rightarrow>
         if color piece \<noteq> player then Some False
         else do {
           validMoves \<leftarrow> getValidMoves b frm player enPassantTgt history;
           Some (list_ex (\<lambda>move. row move = row to \<and> col move = col to) validMoves) } }"

fun hasValidMovesScan :: "Board \<Rightarrow> PieceColor \<Rightarrow> ChessSquare option \<Rightarrow> ChessMove list \<Rightarrow> ChessSquare list \<Rightarrow> bool option" where
  "hasValidMovesScan b player enPassantTgt history [] = Some False"
| "hasValidMovesScan b player enPassantTgt history (sq # rest) = do {
     cell \<leftarrow> boardAt b (row sq) (col sq);
     case cell of
       None \<Rightarrow> hasValidMovesScan b player enPassantTgt history rest
     | Some piece \<Rightarrow>
         if color piece = player
         then do {
           moves \<leftarrow> getValidMoves b sq player enPassantTgt history;
           if length moves > 0 then Some True
           else hasValidMovesScan b player enPassantTgt history rest }
         else hasValidMovesScan b player enPassantTgt history rest }"

definition hasValidMoves :: "Board \<Rightarrow> PieceColor \<Rightarrow> ChessSquare option \<Rightarrow> ChessMove list \<Rightarrow> bool option" where
  "hasValidMoves b player enPassantTgt history =
     hasValidMovesScan b player enPassantTgt history boardSquares"

section \<open>Algebraic notation\<close>

definition pieceTypeName :: "PieceType \<Rightarrow> string" where
  "pieceTypeName t =
     (case t of King \<Rightarrow> ''king'' | Queen \<Rightarrow> ''queen'' | Rook \<Rightarrow> ''rook''
      | Bishop \<Rightarrow> ''bishop'' | Knight \<Rightarrow> ''knight'' | Pawn \<Rightarrow> ''pawn'')"

text \<open>\<^verbatim>\<open>s.charAt(i)\<close>: the one-character string at \<open>i\<close>, or the empty string.\<close>

definition charAt :: "string \<Rightarrow> nat \<Rightarrow> string" where
  "charAt s i = (if i < length s then [s ! i] else [])"

definition toUpperCase :: "string \<Rightarrow> string" where
  "toUpperCase s =
     map (\<lambda>c. let n = (of_char c :: nat) in if 97 \<le> n \<and> n \<le> 122 then char_of (n - 32) else c) s"

text \<open>
  \<^verbatim>\<open>String.fromCharCode(n)\<close>. Characters of the model are bytes, which agrees with
  the source for the codes \<open>0..255\<close>; the file letters are \<open>97 + col\<close>.
\<close>

definition fromCharCode :: "int \<Rightarrow> string" where
  "fromCharCode n = [char_of n]"

text \<open>The decimal text of a whole number, as a template literal prints it.\<close>

fun natDigits :: "nat \<Rightarrow> string" where
  "natDigits n =
     (if n < 10 then [char_of (48 + n)] else natDigits (n div 10) @ [char_of (48 + n mod 10)])"

declare natDigits.simps [simp del]

definition numberToString :: "int \<Rightarrow> string" where
  "numberToString i = (if i < 0 then CHR ''-'' # natDigits (nat (- i)) else natDigits (nat i))"

definition generateAlgebraicNotation :: "ChessPiece \<Rightarrow> ChessSquare \<Rightarrow> ChessSquare \<Rightarrow> bool \<Rightarrow> bool \<Rightarrow> bool \<Rightarrow> CastlingSide option \<Rightarrow> PieceType option \<Rightarrow> string" where
  "generateAlgebraicNotation piece frm to isCapt isChk isMate castl promo =
     (case castl of
        Some side \<Rightarrow> (if side = Kingside then ''O-O'' else ''O-O-O'')
      | None \<Rightarrow>
          (let pieceSymbol =
                 (if ptype piece = Pawn then [] else toUpperCase (charAt (pieceTypeName (ptype piece)) 0));
               fromSquare = fromCharCode (97 + col frm) @ numberToString (8 - row frm);
               toSquare = fromCharCode (97 + col to) @ numberToString (8 - row to);
               captureSymbol = (if isCapt then ''x'' else []);
               checkSymbol = (if isMate then ''#'' else (if isChk then ''+'' else []));
               promotionSymbol =
                 (case promo of
                    None \<Rightarrow> []
                  | Some t \<Rightarrow> ''='' @ toUpperCase (charAt (pieceTypeName t) 0))
           in if ptype piece = Pawn \<and> isCapt
              then charAt fromSquare 0 @ captureSymbol @ toSquare @ promotionSymbol @ checkSymbol
              else pieceSymbol @ captureSymbol @ toSquare @ promotionSymbol @ checkSymbol))"

section \<open>The game state machine\<close>

definition pieceOrder :: "PieceType list" where
  "pieceOrder = [Rook, Knight, Bishop, Queen, King, Bishop, Knight, Rook]"

definition createInitialBoard :: Board where
  "createInitialBoard =
     [map (\<lambda>t. Some \<lparr>ptype = t, color = Black, hasMoved = False\<rparr>) pieceOrder,
      replicate 8 (Some \<lparr>ptype = Pawn, color = Black, hasMoved = False\<rparr>),
      replicate 8 None, replicate 8 None, replicate 8 None, replicate 8 None,
      replicate 8 (Some \<lparr>ptype = Pawn, color = White, hasMoved = False\<rparr>),
      map (\<lambda>t. Some \<lparr>ptype = t, color = White, hasMoved = False\<rparr>) pieceOrder]"

text \<open>The initial values of the hook's state (also what \<^verbatim>\<open>resetGame\<close> restores).\<close>

definition initialState :: GameState where
  "initialState =
     \<lparr>board = createInitialBoard, currentPlayer = White, selectedSquare = None,
      moveHistory = [], gameStatus = Playing, enPassantTarget = None\<rparr>"

text \<open>
  \<^verbatim>\<open>capturedPieces\<close>: the pieces recorded in the \<^verbatim>\<open>capturedPiece\<close> field of the moves
  of the history, those of the white side first and those of the black side second.
\<close>

definition capturedPieces :: "ChessMove list \<Rightarrow> ChessPiece list \<times> ChessPiece list" where
  "capturedPieces history =
     (let captured = List.map_filter capturedPiece history
      in (filter (\<lambda>p. color p = White) captured, filter (\<lambda>p. color p = Black) captured))"

text \<open>
  The parts of \<^verbatim>\<open>makeMove\<close>. What kind of move it is follows from the piece and the
  two squares alone: castling when a king moves two columns, en passant when a pawn lands
  on the en passant target, promotion (always to a queen) when a pawn lands on row 0 or 7.
\<close>

definition castlingOf :: "ChessPiece \<Rightarrow> ChessSquare \<Rightarrow> ChessSquare \<Rightarrow> CastlingSide option" where
  "castlingOf piece frm to =
     (if ptype piece = King \<and> \<bar>col to - col frm\<bar> = 2
      then Some (if col to > col frm then Kingside else Queenside) else None)"

definition passantOf :: "ChessPiece \<Rightarrow> ChessSquare option \<Rightarrow> ChessSquare \<Rightarrow> bool" where
  "passantOf piece enPassantTgt to \<longleftrightarrow>
     ptype piece = Pawn \<and>
     (case enPassantTgt of
        None \<Rightarrow> False
      | Some t \<Rightarrow> row to = row t \<and> col to = col t)"

definition promotionOf :: "ChessPiece \<Rightarrow> ChessSquare \<Rightarrow> PieceType option" where
  "promotionOf piece to =
     (if ptype piece = Pawn \<and> (row to = 0 \<or> row to = 7) then Some Queen else None)"

definition nextEnPassantTarget :: "ChessPiece \<Rightarrow> ChessSquare \<Rightarrow> ChessSquare \<Rightarrow> ChessSquare option" where
  "nextEnPassantTarget piece frm to =
     (if ptype piece = Pawn \<and> \<bar>row to - row frm\<bar> = 2
      then Some \<lparr>row = (row frm + row to) div 2, col = col frm\<rparr> else None)"

text \<open>
  The writes of \<^verbatim>\<open>makeMove\<close> on its copy of the board, in the source's order: the
  rook of a castling move, the pawn removed by en passant, the moved (and possibly
  promoted) piece on its destination, the cleared origin. In the castling block the rook
  is read with \<^verbatim>\<open>!\<close> and spread into a new object; were the square empty the source
  would store an object with neither type nor colour, which the model has no value for, so
  that run is \<open>None\<close>.
\<close>

definition moveBoard :: "Board \<Rightarrow> ChessSquare option \<Rightarrow> ChessPiece \<Rightarrow> ChessSquare \<Rightarrow> ChessSquare \<Rightarrow> Board option" where
  "moveBoard newBoard enPassantTgt piece frm to = do {
     b1 \<leftarrow>
       (case castlingOf piece frm to of
          None \<Rightarrow> Some newBoard
        | Some side \<Rightarrow> do {
            let rookFromCol = (if side = Kingside then 7 else 0);
            let rookToCol = (if side = Kingside then 5 else 3);
            rookCell \<leftarrow> boardAt newBoard (row frm) rookFromCol;
            rook \<leftarrow> rookCell;
            b' \<leftarrow> boardSet newBoard (row frm) rookToCol (Some (rook\<lparr>hasMoved := True\<rparr>));
            boardSet b' (row frm) rookFromCol None });
     b2 \<leftarrow> (if passantOf piece enPassantTgt to then boardSet b1 (row frm) (col to) None else Some b1);
     b3 \<leftarrow> boardSet b2 (row to) (col to)
             (Some (case promotionOf piece to of
                      Some t \<Rightarrow> piece\<lparr>ptype := t, hasMoved := True\<rparr>
                    | None \<Rightarrow> piece\<lparr>hasMoved := True\<rparr>));
     boardSet b3 (row frm) (col frm) None }"

text \<open>\<^verbatim>\<open>makeMove\<close>, with the hook's state passed in and the new state returned.\<close>

definition makeMove :: "GameState \<Rightarrow> ChessSquare \<Rightarrow> ChessSquare \<Rightarrow> GameState option" where
  "makeMove st frm to = do {
     cell \<leftarrow> boardAt (board st) (row frm) (col frm);
     captured \<leftarrow> boardAt (board st) (row to) (col to);
     piece \<leftarrow> cell;
     let castl = castlingOf piece frm to;
     let passant = passantOf piece (enPassantTarget st) to;
     let promo = promotionOf piece to;
     newBoard \<leftarrow> moveBoard (board st) (enPassantTarget st) piece frm to;
     let newEnPassantTarget = nextEnPassantTarget piece frm to;
     let opponentColor = (if currentPlayer st = White then Black else White);
     chk \<leftarrow> isKingInCheck newBoard opponentColor;
     canMove \<leftarrow> hasValidMoves newBoard opponentColor newEnPassantTarget (moveHistory st);
     let mate = (chk \<and> \<not> canMove);
     let stale = (\<not> chk \<and> \<not> canMove);
     let move =
       \<lparr>mv_from = frm, mv_to = to, mv_piece = piece, capturedPiece = captured,
        isCapture = (captured \<noteq> None \<or> passant), isCheck = chk, isCheckmate = mate,
        mv_notation =
          generateAlgebraicNotation piece frm to (captured \<noteq> None \<or> passant) chk mate castl promo,
        castling = castl, enPassant = passant, promotion = promo\<rparr>;
     Some \<lparr>board = newBoard, currentPlayer = opponentColor, selectedSquare = None,
           moveHistory = moveHistory st @ [move],
           gameStatus =
             (if mate then Checkmate else if stale then Stalemate
              else if chk then Check else Playing),
           enPassantTarget = newEnPassantTarget\<rparr> }"

text \<open>
  \<^verbatim>\<open>isValidMove\<close>, the boolean the hook reports for a move attempt, and
  \<^verbatim>\<open>handlePieceMove\<close>, which applies the move only when that boolean is true.
\<close>

definition isValidMove :: "GameState \<Rightarrow> ChessSquare \<Rightarrow> ChessSquare \<Rightarrow> bool option" where
  "isValidMove st frm to =
     isValidMoveAttempt (board st) frm to (currentPlayer st) (enPassantTarget st) (moveHistory st)"

definition handlePieceMove :: "GameState \<Rightarrow> ChessSquare \<Rightarrow> ChessSquare \<Rightarrow> GameState option" where
  "handlePieceMove st frm to = do {
     ok \<leftarrow> isValidMoveAttempt (board st) frm to (currentPlayer st) (enPassantTarget st) (moveHistory st);
     if ok
     then do { st' \<leftarrow> makeMove st frm to; Some (st'\<lparr>selectedSquare := None\<rparr>) }
     else Some st }"

section \<open>Reference positions\<close>

text \<open>The squares of the board that hold a piece of the given colour.\<close>

definition squaresOf :: "Board \<Rightarrow> PieceColor \<Rightarrow> ChessSquare list" where
  "squaresOf b player =
     filter (\<lambda>sq. case boardAt b (row sq) (col sq) of
                     Some (Some p) \<Rightarrow> color p = player
                   | _ \<Rightarrow> False) boardSquares"

text \<open>
  The game 1. e4 a6 2. e5 d5, played through \<open>handlePieceMove\<close> from the initial state:
  a white pawn stands on e5 \<open>(3, 4)\<close> and the black d-pawn has just passed over d6
  \<open>(2, 3)\<close>.
\<close>

definition afterD7D5 :: "GameState option" where
  "afterD7D5 = do {
     s1 \<leftarrow> handlePieceMove initialState \<lparr>row = 6, col = 4\<rparr> \<lparr>row = 4, col = 4\<rparr>;
     s2 \<leftarrow> handlePieceMove s1 \<lparr>row = 1, col = 0\<rparr> \<lparr>row = 2, col = 0\<rparr>;
     s3 \<leftarrow> handlePieceMove s2 \<lparr>row = 4, col = 4\<rparr> \<lparr>row = 3, col = 4\<rparr>;
     handlePieceMove s3 \<lparr>row = 1, col = 3\<rparr> \<lparr>row = 3, col = 3\<rparr> }"

section \<open>Well-formed boards and the logical reading of the engine\<close>

text \<open>
  The definitions of this section are not part of the engine: they state, for an 8 by 8
  board and squares on it, what the engine's functions compute, and the lemmas of the next
  sections prove that the engine returns exactly these values.
\<close>

definition wfBoard :: "Board \<Rightarrow> bool" where
  "wfBoard b \<longleftrightarrow> length b = 8 \<and> list_all (\<lambda>line. length line = 8) b"

definition cellAt :: "Board \<Rightarrow> ChessSquare \<Rightarrow> ChessPiece option" where
  "cellAt b sq = b ! nat (row sq) ! nat (col sq)"

definition isKingAt :: "Board \<Rightarrow> PieceColor \<Rightarrow> ChessSquare \<Rightarrow> bool" where
  "isKingAt b kingColor sq =
     (case cellAt b sq of None \<Rightarrow> False | Some p \<Rightarrow> ptype p = King \<and> color p = kingColor)"

text \<open>
  The attack patterns of the pieces. \<open>pathFree\<close>: every square strictly between the two
  squares, stepping one square at a time along the row, column or diagonal that joins
  them, is empty. \<open>attacks\<close>: a pawn attacks the two diagonal squares one row forward
  (row numbers fall for white and rise for black); a knight the eight L-shaped offsets,
  whatever stands between; a king the squares next to it; rook, bishop and queen the
  squares on their lines that a free path leads to, so the first occupied square of a
  ray is attacked and the squares beyond it are not. \<open>attackedBy\<close>: some square of the
  board holds a piece of the attacking colour whose pattern reaches the square. The
  attacker and a king of the other colour never share a square, so the patterns are only
  read for two different squares.
\<close>

definition stepOf :: "int \<Rightarrow> int \<Rightarrow> int" where
  "stepOf a t = (if t = a then 0 else (t - a) div \<bar>t - a\<bar>)"

definition pathFree :: "Board \<Rightarrow> ChessSquare \<Rightarrow> ChessSquare \<Rightarrow> bool" where
  "pathFree b frm to \<longleftrightarrow>
     (\<forall>i::nat. 0 < i \<and> i < nat (max \<bar>row to - row frm\<bar> \<bar>col to - col frm\<bar>) \<longrightarrow>
        cellAt b \<lparr>row = row frm + int i * stepOf (row frm) (row to),
                  col = col frm + int i * stepOf (col frm) (col to)\<rparr> = None)"

definition attacks :: "Board \<Rightarrow> ChessPiece \<Rightarrow> ChessSquare \<Rightarrow> ChessSquare \<Rightarrow> bool" where
  "attacks b piece frm to =
     (case ptype piece of
        Pawn \<Rightarrow> row to = row frm + (if color piece = White then - 1 else 1) \<and> \<bar>col to - col frm\<bar> = 1
      | Rook \<Rightarrow> (row frm = row to \<or> col frm = col to) \<and> pathFree b frm to
      | Knight \<Rightarrow> (\<bar>row frm - row to\<bar> = 2 \<and> \<bar>col frm - col to\<bar> = 1)
                  \<or> (\<bar>row frm - row to\<bar> = 1 \<and> \<bar>col frm - col to\<bar> = 2)
      | Bishop \<Rightarrow> \<bar>row frm - row to\<bar> = \<bar>col frm - col to\<bar> \<and> pathFree b frm to
      | Queen \<Rightarrow> ((row frm = row to \<or> col frm = col to) \<or> \<bar>row frm - row to\<bar> = \<bar>col frm - col to\<bar>)
                 \<and> pathFree b frm to
      | King \<Rightarrow> \<bar>row frm - row to\<bar> \<le> 1 \<and> \<bar>col frm - col to\<bar> \<le> 1)"

definition attackedBy :: "Board \<Rightarrow> ChessSquare \<Rightarrow> PieceColor \<Rightarrow> bool" where
  "attackedBy b sq attackingColor \<longleftrightarrow>
     (\<exists>frm p. isInBounds frm \<and> cellAt b frm = Some p \<and> color p = attackingColor \<and> attacks b p frm sq)"

definition inCheck :: "Board \<Rightarrow> PieceColor \<Rightarrow> bool" where
  "inCheck b kingColor =
     (case find (isKingAt b kingColor) boardSquares of
        None \<Rightarrow> False
      | Some k \<Rightarrow> attackedBy b k (opponentOf kingColor))"

definition putAt :: "Board \<Rightarrow> ChessSquare \<Rightarrow> ChessPiece option \<Rightarrow> Board" where
  "putAt b sq v = b[nat (row sq) := (b ! nat (row sq))[nat (col sq) := v]]"

definition simBoard :: "Board \<Rightarrow> ChessSquare \<Rightarrow> ChessSquare \<Rightarrow> Board" where
  "simBoard b frm to = putAt (putAt b to (cellAt b frm)) frm None"

definition unitStep :: "ChessSquare \<Rightarrow> bool" where
  "unitStep dir \<longleftrightarrow> \<bar>row dir\<bar> \<le> 1 \<and> \<bar>col dir\<bar> \<le> 1 \<and> (row dir \<noteq> 0 \<or> col dir \<noteq> 0)"

definition pawnDir :: "PieceColor \<Rightarrow> int" where
  "pawnDir c = (if c = White then - 1 else 1)"

definition holdsKing :: "Board \<Rightarrow> PieceColor \<Rightarrow> ChessSquare \<Rightarrow> bool" where
  "holdsKing b kingColor sq =
     (case boardAt b (row sq) (col sq) of
        Some (Some p) \<Rightarrow> ptype p = King \<and> color p = kingColor
      | _ \<Rightarrow> False)"

definition rookCheckBoard :: Board where
  "rookCheckBoard =
     [[None, None, None, None, Some \<lparr>ptype = Rook, color = Black, hasMoved = True\<rparr>, None, None, None],
      replicate 8 None, replicate 8 None, replicate 8 None,
      replicate 8 None, replicate 8 None, replicate 8 None,
      [None, None, None, None, Some \<lparr>ptype = King, color = White, hasMoved = False\<rparr>, None, None, None]]"

definition epOk :: "ChessSquare option \<Rightarrow> bool" where
  "epOk ep = (case ep of None \<Rightarrow> True | Some t \<Rightarrow> isInBounds t)"

definition movedPiece :: "ChessPiece \<Rightarrow> ChessSquare \<Rightarrow> ChessPiece" where
  "movedPiece piece to =
     (case promotionOf piece to of
        Some t \<Rightarrow> piece\<lparr>ptype := t, hasMoved := True\<rparr>
      | None \<Rightarrow> piece\<lparr>hasMoved := True\<rparr>)"

definition rookFrom :: "ChessSquare \<Rightarrow> CastlingSide \<Rightarrow> ChessSquare" where
  "rookFrom frm side = \<lparr>row = row frm, col = (if side = Kingside then 7 else 0)\<rparr>"

definition rookTo :: "ChessSquare \<Rightarrow> CastlingSide \<Rightarrow> ChessSquare" where
  "rookTo frm side = \<lparr>row = row frm, col = (if side = Kingside then 5 else 3)\<rparr>"

definition castledBoard :: "Board \<Rightarrow> ChessPiece \<Rightarrow> ChessSquare \<Rightarrow> ChessSquare \<Rightarrow> Board" where
  "castledBoard b piece frm to =
     (case castlingOf piece frm to of
        None \<Rightarrow> b
      | Some side \<Rightarrow>
          putAt (putAt b (rookTo frm side)
                   (map_option (\<lambda>r. r\<lparr>hasMoved := True\<rparr>) (cellAt b (rookFrom frm side))))
            (rookFrom frm side) None)"

definition passantBoard :: "Board \<Rightarrow> ChessSquare option \<Rightarrow> ChessPiece \<Rightarrow> ChessSquare \<Rightarrow> ChessSquare \<Rightarrow> Board" where
  "passantBoard b ep piece frm to =
     (if passantOf piece ep to
      then putAt (castledBoard b piece frm to) \<lparr>row = row frm, col = col to\<rparr> None
      else castledBoard b piece frm to)"

definition finalBoard :: "Board \<Rightarrow> ChessSquare option \<Rightarrow> ChessPiece \<Rightarrow> ChessSquare \<Rightarrow> ChessSquare \<Rightarrow> Board" where
  "finalBoard b ep piece frm to =
     putAt (putAt (passantBoard b ep piece frm to) to (Some (movedPiece piece to))) frm None"

definition unmovedAtHome :: "Board \<Rightarrow> bool" where
  "unmovedAtHome b \<longleftrightarrow>
     (\<forall>sq p. isInBounds sq \<and> cellAt b sq = Some p \<and> \<not> hasMoved p
        \<longrightarrow> cellAt createInitialBoard sq = Some p)"

definition passantSquaresEmpty :: "Board \<Rightarrow> PieceColor \<Rightarrow> ChessSquare option \<Rightarrow> bool" where
  "passantSquaresEmpty b player ep =
     (case ep of
        None \<Rightarrow> True
      | Some t \<Rightarrow>
          isInBounds t \<and> cellAt b t = None
          \<and> isInBounds \<lparr>row = row t + pawnDir player, col = col t\<rparr>
          \<and> cellAt b \<lparr>row = row t + pawnDir player, col = col t\<rparr> = None)"

definition stateInv :: "GameState \<Rightarrow> bool" where
  "stateInv st \<longleftrightarrow>
     wfBoard (board st) \<and> unmovedAtHome (board st)
     \<and> passantSquaresEmpty (board st) (currentPlayer st) (enPassantTarget st)"

definition isCorner :: "ChessSquare \<Rightarrow> bool" where
  "isCorner sq \<longleftrightarrow> (row sq = 0 \<or> row sq = 7) \<and> (col sq = 0 \<or> col sq = 7)"

definition checkPreserving :: "PieceColor \<Rightarrow> Board \<Rightarrow> Board \<Rightarrow> bool" where
  "checkPreserving mover b1 b2 \<longleftrightarrow>
     (\<forall>sq q. isInBounds sq \<and> cellAt b2 sq = Some q \<and> color q \<noteq> mover
        \<longrightarrow> (\<exists>q'. cellAt b1 sq = Some q' \<and> ptype q' = ptype q \<and> color q' = color q))
     \<and> (\<forall>sq. isInBounds sq \<and> cellAt b2 sq = None \<and> cellAt b1 sq \<noteq> None \<longrightarrow> isCorner sq)
     \<and> (\<forall>sq. isInBounds sq \<longrightarrow> isKingAt b1 mover sq = isKingAt b2 mover sq)"

text \<open>
  The states the hook can be in: the initial state (also restored by \<^verbatim>\<open>resetGame\<close>),
  any change of the selected square (\<^verbatim>\<open>handleSquareClick\<close>, and the deselection after a
  drop), and \<^verbatim>\<open>makeMove\<close>, which both handlers call only after
  \<^verbatim>\<open>isValidMoveAttempt\<close> has answered true.
\<close>

inductive reachable :: "GameState \<Rightarrow> bool" where
  initial: "reachable initialState"
| select: "reachable st \<Longrightarrow> reachable (st\<lparr>selectedSquare := s\<rparr>)"
| move: "reachable st \<Longrightarrow> isValidMove st frm to = Some True \<Longrightarrow> makeMove st frm to = Some st'
         \<Longrightarrow> reachable st'"

text \<open>A sequence of move attempts, each passed to \<open>handlePieceMove\<close>.\<close>

fun playMoves :: "GameState \<Rightarrow> (ChessSquare \<times> ChessSquare) list \<Rightarrow> GameState option" where
  "playMoves st [] = Some st"
| "playMoves st ((frm, to) # rest) = do { st' \<leftarrow> handlePieceMove st frm to; playMoves st' rest }"

text \<open>
  1. a4 h6 2. a5 h5 3. a6 h4 4. axb7 a5: a white pawn stands on b7 \<open>(1, 1)\<close> and the black
  a-pawn has just passed over a6 \<open>(2, 0)\<close>. The engine then offers b7 to a6 as an en passant
  move.
\<close>

definition passantGame :: "(ChessSquare \<times> ChessSquare) list" where
  "passantGame =
     [(\<lparr>row = 6, col = 0\<rparr>, \<lparr>row = 4, col = 0\<rparr>), (\<lparr>row = 1, col = 7\<rparr>, \<lparr>row = 2, col = 7\<rparr>),
      (\<lparr>row = 4, col = 0\<rparr>, \<lparr>row = 3, col = 0\<rparr>), (\<lparr>row = 2, col = 7\<rparr>, \<lparr>row = 3, col = 7\<rparr>),
      (\<lparr>row = 3, col = 0\<rparr>, \<lparr>row = 2, col = 0\<rparr>), (\<lparr>row = 3, col = 7\<rparr>, \<lparr>row = 4, col = 7\<rparr>),
      (\<lparr>row = 2, col = 0\<rparr>, \<lparr>row = 1, col = 1\<rparr>), (\<lparr>row = 1, col = 0\<rparr>, \<lparr>row = 3, col = 0\<rparr>)]"

section \<open>Properties of the reference positions, the notation and the history argument\<close>

text \<open>
  C1 (en passant availability). After 1. e4 a6 2. e5 d5 the state has white to move and
  the en passant target d6, yet the legal moves of the white pawn on e5 are the advance to
  e6 only: d6 is missing. \<open>getPawnMoves\<close> tests \<open>row frm = row t + direction\<close>, which asks
  for a pawn two rows beyond the target instead of one row before it. So for a pawn of
  either colour on any square, a target on the row just ahead of the pawn (where a
  neighbouring pawn that double-stepped leaves it) is never pushed by the en passant block.
\<close>

theorem en_passant_target_missing_after_double_step:
  "map_option (\<lambda>s. (currentPlayer s, enPassantTarget s)) afterD7D5
     = Some (White, Some \<lparr>row = 2, col = 3\<rparr>)
   \<and> (afterD7D5 \<bind> (\<lambda>s. getValidMoves (board s) \<lparr>row = 3, col = 4\<rparr> (currentPlayer s)
                             (enPassantTarget s) (moveHistory s)))
     = Some [\<lparr>row = 2, col = 4\<rparr>]
   \<and> pawnPassant frm (pawnDir c) (Some \<lparr>row = row frm + pawnDir c, col = k\<rparr>) = []"
proof -
  have target: "map_option (\<lambda>s. (currentPlayer s, enPassantTarget s)) afterD7D5
      = Some (White, Some \<lparr>row = 2, col = 3\<rparr>)"
    by code_simp
  have legal: "(afterD7D5 \<bind> (\<lambda>s. getValidMoves (board s) \<lparr>row = 3, col = 4\<rparr> (currentPlayer s)
                             (enPassantTarget s) (moveHistory s)))
      = Some [\<lparr>row = 2, col = 4\<rparr>]"
    by code_simp
  have never: "pawnPassant frm (pawnDir c) (Some \<lparr>row = row frm + pawnDir c, col = k\<rparr>) = []"
    by (simp add: pawnPassant_def pawnDir_def)
  from target legal never show ?thesis by (intro conjI)
qed

text \<open>
  C4 (initial move count). In the initial state the legal moves of all white pieces
  together number exactly 20.
\<close>

theorem initial_position_twenty_legal_moves:
  "map_option (\<lambda>ms. sum_list (map length ms))
     (those (map (\<lambda>sq. getValidMoves (board initialState) sq (currentPlayer initialState)
                          (enPassantTarget initialState) (moveHistory initialState))
                 (squaresOf (board initialState) White)))
   = Some 20"
  by code_simp

text \<open>
  C6 (notation examples). The pawn capture e4 takes d5 renders as \<open>exd5\<close> and kingside
  castling as \<open>O-O\<close>, but the knight move g1 to f3 renders as \<open>Kf3\<close>, not \<open>Nf3\<close>: the
  piece letter is the upper-cased first letter of the type name, which is \<open>K\<close> for
  \<open>knight\<close> as it is for \<open>king\<close>.
\<close>

theorem notation_reference_examples:
  "generateAlgebraicNotation \<lparr>ptype = Knight, color = White, hasMoved = False\<rparr>
     \<lparr>row = 7, col = 6\<rparr> \<lparr>row = 5, col = 5\<rparr> False False False None None = ''Kf3''
   \<and> generateAlgebraicNotation \<lparr>ptype = Pawn, color = White, hasMoved = True\<rparr>
     \<lparr>row = 4, col = 4\<rparr> \<lparr>row = 3, col = 3\<rparr> True False False None None = ''exd5''
   \<and> generateAlgebraicNotation \<lparr>ptype = King, color = White, hasMoved = False\<rparr>
     \<lparr>row = 7, col = 4\<rparr> \<lparr>row = 7, col = 6\<rparr> False False False (Some Kingside) None = ''O-O''"
  by code_simp

text \<open>
  C7 (castling notation). Whatever the piece, the squares, and the capture, check,
  checkmate and promotion arguments are, a move with the castling field set renders as
  exactly \<open>O-O\<close> (kingside) or \<open>O-O-O\<close> (queenside); no check or mate suffix is added.
\<close>

theorem castling_notation_has_no_suffix:
  "generateAlgebraicNotation piece frm to isCapt isChk isMate (Some Kingside) promo = ''O-O''
   \<and> generateAlgebraicNotation piece frm to isCapt isChk isMate (Some Queenside) promo = ''O-O-O''"
  by (simp add: generateAlgebraicNotation_def)

lemma getKingMoves_history: "getKingMoves b frm h1 = getKingMoves b frm h2"
  by (simp add: getKingMoves_def)

lemma pieceMoves_history: "pieceMoves b frm piece ep h1 = pieceMoves b frm piece ep h2"
  unfolding pieceMoves_def getKingMoves_history [of b frm h1 h2] by (rule refl)

lemma getValidMoves_history: "getValidMoves b frm player ep h1 = getValidMoves b frm player ep h2"
  unfolding getValidMoves_def pieceMoves_history [of b frm _ ep h1 h2] by (rule refl)

lemma hasValidMovesScan_history:
  "hasValidMovesScan b player ep h1 sqs = hasValidMovesScan b player ep h2 sqs"
  by (induction sqs)
    (simp_all add: getValidMoves_history [of b _ player ep h1 h2]
       cong: Option.bind_cong option.case_cong if_cong)

lemma hasValidMoves_history: "hasValidMoves b player ep h1 = hasValidMoves b player ep h2"
  unfolding hasValidMoves_def by (rule hasValidMovesScan_history)

text \<open>
  C9 (history independence). King move generation, legal-move generation, move validation
  and the any-legal-move test return the same result for any two move histories.
\<close>

theorem legal_moves_independent_of_history:
  "getKingMoves b frm h1 = getKingMoves b frm h2
   \<and> getValidMoves b frm player ep h1 = getValidMoves b frm player ep h2
   \<and> isValidMoveAttempt b frm to player ep h1 = isValidMoveAttempt b frm to player ep h2
   \<and> hasValidMoves b player ep h1 = hasValidMoves b player ep h2"
proof -
  have attempt: "isValidMoveAttempt b frm to player ep h1 = isValidMoveAttempt b frm to player ep h2"
    unfolding isValidMoveAttempt_def getValidMoves_history [of b frm player ep h1 h2] by (rule refl)
  from getKingMoves_history getValidMoves_history attempt hasValidMoves_history
  show ?thesis by blast
qed

section \<open>Attack analysis on well-formed boards\<close>

lemma square_eta [simp]: "\<lparr>row = row sq, col = col sq\<rparr> = (sq::ChessSquare)"
  by simp

lemma square_eq_iff: "(a::ChessSquare) = b \<longleftrightarrow> row a = row b \<and> col a = col b"
  by (cases a, cases b) simp

lemma set_indices: "set indices = {0..7}"
  by (auto simp: indices_def)

lemma set_boardSquares: "sq \<in> set boardSquares \<longleftrightarrow> isInBounds sq"
proof
  assume "sq \<in> set boardSquares"
  then obtain r c where "r \<in> set indices" "c \<in> set indices" "sq = \<lparr>row = r, col = c\<rparr>"
    by (auto simp: boardSquares_def)
  then show "isInBounds sq" by (auto simp: set_indices isInBounds_def)
next
  assume "isInBounds sq"
  then have "row sq \<in> set indices" "col sq \<in> set indices"
    by (auto simp: set_indices isInBounds_def)
  moreover have "sq = \<lparr>row = row sq, col = col sq\<rparr>" by simp
  ultimately show "sq \<in> set boardSquares"
    unfolding boardSquares_def by (metis (no_types, lifting) UN_iff imageI set_concat set_map)
qed

lemma wfBoard_row: "wfBoard b \<Longrightarrow> 0 \<le> r \<Longrightarrow> r < 8 \<Longrightarrow> length (b ! nat r) = 8"
  by (auto simp: wfBoard_def list_all_length)

lemma boardAt_wf:
  "wfBoard b \<Longrightarrow> 0 \<le> r \<Longrightarrow> r < 8 \<Longrightarrow> 0 \<le> c \<Longrightarrow> c < 8 \<Longrightarrow>
   boardAt b r c = Some (cellAt b \<lparr>row = r, col = c\<rparr>)"
  using wfBoard_row [of b r] by (simp add: boardAt_def cellAt_def wfBoard_def)

lemma boardAt_sq:
  "wfBoard b \<Longrightarrow> isInBounds sq \<Longrightarrow> boardAt b (row sq) (col sq) = Some (cellAt b sq)"
  using boardAt_wf [of b "row sq" "col sq"] by (simp add: isInBounds_def cellAt_def)

lemma boardAt_Some_piece:
  "wfBoard b \<Longrightarrow> boardAt b (row sq) (col sq) = Some (Some p) \<Longrightarrow> isInBounds sq \<and> cellAt b sq = Some p"
  by (auto simp: boardAt_def isInBounds_def cellAt_def wfBoard_def list_all_length split: if_splits)

lemma div_abs_sgn: "(x::int) \<noteq> 0 \<Longrightarrow> x div \<bar>x\<bar> = sgn x"
proof -
  assume "x \<noteq> 0"
  then have "(sgn x * \<bar>x\<bar>) div \<bar>x\<bar> = sgn x" by simp
  then show ?thesis by (simp add: mult_sgn_abs)
qed

lemma stepOf_sgn: "stepOf a t = sgn (t - a)"
  by (simp add: stepOf_def div_abs_sgn)

lemma pathLoop_walk:
  assumes wf: "wfBoard b" and dir: "rd \<noteq> 0 \<or> cd \<noteq> 0"
  shows "row to = row cur + int n * rd \<Longrightarrow> col to = col cur + int n * cd \<Longrightarrow>
         (\<forall>i<n. isInBounds \<lparr>row = row cur + int i * rd, col = col cur + int i * cd\<rparr>) \<Longrightarrow>
         pathLoop b rd cd cur to
           = Some (\<forall>i<n. cellAt b \<lparr>row = row cur + int i * rd, col = col cur + int i * cd\<rparr> = None)"
proof (induction n arbitrary: cur)
  case 0
  then show ?case by (subst pathLoop.simps) simp
next
  case (Suc n)
  let ?nx = "\<lparr>row = row cur + rd, col = col cur + cd\<rparr>"
  from Suc.prems dir have ne: "row cur \<noteq> row to \<or> col cur \<noteq> col to"
    by auto
  from Suc.prems(3) have inb: "isInBounds cur"
    by (auto dest!: spec [of _ 0] simp: isInBounds_def)
  have rec: "pathLoop b rd cd ?nx to
      = Some (\<forall>i<n. cellAt b \<lparr>row = row ?nx + int i * rd, col = col ?nx + int i * cd\<rparr> = None)"
  proof (rule Suc.IH)
    show "row to = row ?nx + int n * rd" using Suc.prems(1) by (simp add: algebra_simps)
    show "col to = col ?nx + int n * cd" using Suc.prems(2) by (simp add: algebra_simps)
    show "\<forall>i<n. isInBounds \<lparr>row = row ?nx + int i * rd, col = col ?nx + int i * cd\<rparr>"
    proof (intro allI impI)
      fix i assume "i < n"
      then show "isInBounds \<lparr>row = row ?nx + int i * rd, col = col ?nx + int i * cd\<rparr>"
        using Suc.prems(3) [rule_format, of "Suc i"] by (simp add: algebra_simps)
    qed
  qed
  have shift: "(\<forall>i<Suc n. cellAt b \<lparr>row = row cur + int i * rd, col = col cur + int i * cd\<rparr> = None)
      \<longleftrightarrow> cellAt b cur = None \<and>
          (\<forall>i<n. cellAt b \<lparr>row = row ?nx + int i * rd, col = col ?nx + int i * cd\<rparr> = None)"
    (is "?L \<longleftrightarrow> ?R")
  proof
    assume L: ?L
    have "cellAt b cur = None" using L [rule_format, of 0] by simp
    moreover have "cellAt b \<lparr>row = row ?nx + int i * rd, col = col ?nx + int i * cd\<rparr> = None"
      if "i < n" for i using L [rule_format, of "Suc i"] that by (simp add: algebra_simps)
    ultimately show ?R by blast
  next
    assume R: ?R
    show ?L
    proof (intro allI impI)
      fix i assume "i < Suc n"
      show "cellAt b \<lparr>row = row cur + int i * rd, col = col cur + int i * cd\<rparr> = None"
      proof (cases i)
        case 0 with R show ?thesis by simp
      next
        case (Suc j)
        with \<open>i < Suc n\<close> have "j < n" by simp
        with R have "cellAt b \<lparr>row = row ?nx + int j * rd, col = col ?nx + int j * cd\<rparr> = None"
          by blast
        with Suc show ?thesis by (simp add: algebra_simps)
      qed
    qed
  qed
  show ?case
    by (subst pathLoop.simps) (use ne inb rec shift in \<open>simp add: boardAt_sq [OF wf inb]\<close>)
qed

lemma between_bounds:
  "0 \<le> a \<Longrightarrow> a < 8 \<Longrightarrow> 0 \<le> a + int n * s \<Longrightarrow> a + int n * s < 8 \<Longrightarrow>
   s = - 1 \<or> s = 0 \<or> s = 1 \<Longrightarrow> j \<le> n \<Longrightarrow> 0 \<le> a + int j * s \<and> a + int j * s < (8::int)"
  by auto

lemma sgn_cases: "sgn (x::int) = - 1 \<or> sgn x = 0 \<or> sgn x = 1"
  by (auto simp: sgn_if)

lemma aligned_reach:
  assumes "row frm = row to \<or> col frm = col to \<or> \<bar>row frm - row to\<bar> = \<bar>col frm - col to\<bar>"
  defines "n \<equiv> nat (max \<bar>row to - row frm\<bar> \<bar>col to - col frm\<bar>)"
  shows "row to = row frm + int n * stepOf (row frm) (row to)"
    and "col to = col frm + int n * stepOf (col frm) (col to)"
proof -
  define dr where "dr = row to - row frm"
  define dc where "dc = col to - col frm"
  have scale: "\<bar>x\<bar> * sgn x = x" for x :: int
    by (cases "x < 0") (auto simp: sgn_if)
  have n_int: "int n = max \<bar>dr\<bar> \<bar>dc\<bar>"
    by (simp add: n_def dr_def dc_def max_def)
  have al: "dr = 0 \<or> dc = 0 \<or> \<bar>dr\<bar> = \<bar>dc\<bar>"
    using assms(1) unfolding dr_def dc_def by (auto simp: abs_minus_commute)
  have nr: "dr = 0 \<or> int n = \<bar>dr\<bar>"
    using al unfolding n_int by (auto simp: max_def)
  have nc: "dc = 0 \<or> int n = \<bar>dc\<bar>"
    using al unfolding n_int by (auto simp: max_def)
  from nr have "int n * sgn dr = dr" by (auto simp: scale)
  then show "row to = row frm + int n * stepOf (row frm) (row to)"
    by (simp add: stepOf_sgn dr_def)
  from nc have "int n * sgn dc = dc" by (auto simp: scale)
  then show "col to = col frm + int n * stepOf (col frm) (col to)"
    by (simp add: stepOf_sgn dc_def)
qed

lemma isPathClear_wf:
  assumes wf: "wfBoard b" and f: "isInBounds frm" and t: "isInBounds to"
    and al: "row frm = row to \<or> col frm = col to \<or> \<bar>row frm - row to\<bar> = \<bar>col frm - col to\<bar>"
  shows "isPathClear b frm to = Some (pathFree b frm to)"
proof -
  define rd where "rd = stepOf (row frm) (row to)"
  define cd where "cd = stepOf (col frm) (col to)"
  define n where "n = nat (max \<bar>row to - row frm\<bar> \<bar>col to - col frm\<bar>)"
  have unf: "isPathClear b frm to = pathLoop b rd cd \<lparr>row = row frm + rd, col = col frm + cd\<rparr> to"
    by (simp add: isPathClear_def rd_def cd_def stepOf_def Let_def)
  have reach: "row to = row frm + int n * rd" "col to = col frm + int n * cd"
    using aligned_reach [OF al] by (simp_all add: n_def rd_def cd_def)
  have steps: "rd = - 1 \<or> rd = 0 \<or> rd = 1" "cd = - 1 \<or> cd = 0 \<or> cd = 1"
    using sgn_cases by (simp_all add: rd_def cd_def stepOf_sgn)
  have fr: "0 \<le> row frm" "row frm < 8" "0 \<le> col frm" "col frm < 8"
    using f by (simp_all add: isInBounds_def)
  have tr: "0 \<le> row frm + int n * rd" "row frm + int n * rd < 8"
    using t reach(1) by (simp_all add: isInBounds_def)
  have tc: "0 \<le> col frm + int n * cd" "col frm + int n * cd < 8"
    using t reach(2) by (simp_all add: isInBounds_def)
  have inb: "isInBounds \<lparr>row = row frm + int j * rd, col = col frm + int j * cd\<rparr>" if "j \<le> n" for j
    using between_bounds [OF fr(1,2) tr steps(1) that] between_bounds [OF fr(3,4) tc steps(2) that]
    by (simp add: isInBounds_def)
  show ?thesis
  proof (cases "n = 0")
    case True
    with reach have "row frm = row to" "col frm = col to" by simp_all
    then have "rd = 0" "cd = 0" by (simp_all add: rd_def cd_def stepOf_def)
    with \<open>row frm = row to\<close> \<open>col frm = col to\<close> have "isPathClear b frm to = Some True"
      unfolding unf by (subst pathLoop.simps) simp
    moreover have "pathFree b frm to" using True by (simp add: pathFree_def n_def)
    ultimately show ?thesis by simp
  next
    case False
    then obtain m where m: "n = Suc m" by (cases n) auto
    from False have "row to \<noteq> row frm \<or> col to \<noteq> col frm"
      unfolding n_def by linarith
    then have dir: "rd \<noteq> 0 \<or> cd \<noteq> 0"
      by (auto simp: rd_def cd_def stepOf_sgn sgn_if)
    let ?c = "\<lparr>row = row frm + rd, col = col frm + cd\<rparr>"
    have walk: "pathLoop b rd cd ?c to
        = Some (\<forall>i<m. cellAt b \<lparr>row = row ?c + int i * rd, col = col ?c + int i * cd\<rparr> = None)"
    proof (rule pathLoop_walk [OF wf dir])
      show "row to = row ?c + int m * rd" using reach(1) m by (simp add: algebra_simps)
      show "col to = col ?c + int m * cd" using reach(2) m by (simp add: algebra_simps)
      show "\<forall>i<m. isInBounds \<lparr>row = row ?c + int i * rd, col = col ?c + int i * cd\<rparr>"
      proof (intro allI impI)
        fix i assume "i < m"
        then have "Suc i \<le> n" using m by simp
        from inb [OF this] show "isInBounds \<lparr>row = row ?c + int i * rd, col = col ?c + int i * cd\<rparr>"
          by (simp add: algebra_simps)
      qed
    qed
    have "(\<forall>i<m. cellAt b \<lparr>row = row ?c + int i * rd, col = col ?c + int i * cd\<rparr> = None)
        \<longleftrightarrow> pathFree b frm to" (is "?L \<longleftrightarrow> _")
    proof
      assume L: ?L
      show "pathFree b frm to"
        unfolding pathFree_def
      proof (intro allI impI)
        fix i :: nat
        assume "0 < i \<and> i < nat (max \<bar>row to - row frm\<bar> \<bar>col to - col frm\<bar>)"
        then obtain j where j: "i = Suc j" "j < m" using m by (cases i) (auto simp: n_def)
        from L j(2) have "cellAt b \<lparr>row = row ?c + int j * rd, col = col ?c + int j * cd\<rparr> = None"
          by blast
        then show "cellAt b \<lparr>row = row frm + int i * stepOf (row frm) (row to),
                              col = col frm + int i * stepOf (col frm) (col to)\<rparr> = None"
          using j(1) by (simp add: algebra_simps rd_def cd_def)
      qed
    next
      assume P: "pathFree b frm to"
      show ?L
      proof (intro allI impI)
        fix i assume "i < m"
        then have "0 < Suc i \<and> Suc i < nat (max \<bar>row to - row frm\<bar> \<bar>col to - col frm\<bar>)"
          using m by (simp add: n_def)
        from P [unfolded pathFree_def, rule_format, OF this]
        show "cellAt b \<lparr>row = row ?c + int i * rd, col = col ?c + int i * cd\<rparr> = None"
          by (simp add: algebra_simps rd_def cd_def)
      qed
    qed
    with walk show ?thesis unfolding unf by simp
  qed
qed

lemma canPieceAttackSquare_wf:
  assumes wf: "wfBoard b" and f: "isInBounds frm" and t: "isInBounds to"
    and p: "cellAt b frm = Some p"
  shows "canPieceAttackSquare b frm to = Some (attacks b p frm to)"
proof (cases "ptype p")
  case Rook
  then show ?thesis
    using isPathClear_wf [OF wf f t]
    by (auto simp: canPieceAttackSquare_def boardAt_sq [OF wf f] p attacks_def)
next
  case Bishop
  then show ?thesis
    using isPathClear_wf [OF wf f t]
    by (auto simp: canPieceAttackSquare_def boardAt_sq [OF wf f] p attacks_def)
next
  case Queen
  then show ?thesis
    using isPathClear_wf [OF wf f t]
    by (auto simp: canPieceAttackSquare_def boardAt_sq [OF wf f] p attacks_def)
qed (simp_all add: canPieceAttackSquare_def boardAt_sq [OF wf f] p attacks_def Let_def)

lemma attackScan_wf:
  assumes wf: "wfBoard b" and t: "isInBounds sq"
  shows "(\<forall>frm\<in>set sqs. isInBounds frm) \<Longrightarrow>
         attackScan b sq ac sqs
           = Some (\<exists>frm\<in>set sqs. \<exists>p. cellAt b frm = Some p \<and> color p = ac \<and> attacks b p frm sq)"
proof (induction sqs)
  case Nil
  then show ?case by simp
next
  case (Cons a sqs)
  then have a: "isInBounds a" by simp
  show ?case
  proof (cases "cellAt b a")
    case None
    with Cons show ?thesis by (simp add: boardAt_sq [OF wf a])
  next
    case (Some p)
    with Cons show ?thesis
      by (auto simp: boardAt_sq [OF wf a] canPieceAttackSquare_wf [OF wf a t Some])
  qed
qed

lemma isSquareUnderAttack_wf:
  assumes "wfBoard b" "isInBounds sq"
  shows "isSquareUnderAttack b sq ac = Some (attackedBy b sq ac)"
proof -
  have "isSquareUnderAttack b sq ac
      = Some (\<exists>frm\<in>set boardSquares. \<exists>p. cellAt b frm = Some p \<and> color p = ac \<and> attacks b p frm sq)"
    unfolding isSquareUnderAttack_def
    by (rule attackScan_wf [OF assms]) (simp add: set_boardSquares)
  then show ?thesis by (auto simp: attackedBy_def set_boardSquares)
qed

lemma findKing_wf:
  assumes wf: "wfBoard b"
  shows "(\<forall>sq\<in>set sqs. isInBounds sq) \<Longrightarrow> findKing b kc sqs = Some (find (isKingAt b kc) sqs)"
proof (induction sqs)
  case Nil
  then show ?case by simp
next
  case (Cons a sqs)
  then have a: "isInBounds a" by simp
  with Cons show ?case
    by (cases "cellAt b a") (auto simp: boardAt_sq [OF wf a] isKingAt_def)
qed

lemma find_inBounds: "find P boardSquares = Some k \<Longrightarrow> isInBounds k \<and> P k"
  by (auto simp: find_Some_iff set_boardSquares [symmetric])

lemma isKingInCheck_wf:
  assumes wf: "wfBoard b"
  shows "isKingInCheck b kc = Some (inCheck b kc)"
proof (cases "find (isKingAt b kc) boardSquares")
  case None
  then show ?thesis
    by (simp add: isKingInCheck_def inCheck_def findKing_wf [OF wf] set_boardSquares)
next
  case (Some k)
  with find_inBounds have "isInBounds k" by blast
  with Some show ?thesis
    by (simp add: isKingInCheck_def inCheck_def findKing_wf [OF wf] set_boardSquares
        isSquareUnderAttack_wf [OF wf])
qed

section \<open>Board writes, simulation and the legality filter\<close>

lemma wfBoard_putAt: "wfBoard b \<Longrightarrow> wfBoard (putAt b sq v)"
proof -
  assume wf: "wfBoard b"
  have "length ((putAt b sq v) ! n) = 8" if "n < 8" for n
  proof (cases "n = nat (row sq)")
    case True
    with that wf show ?thesis by (simp add: putAt_def wfBoard_def list_all_length)
  next
    case False
    with that wf show ?thesis by (simp add: putAt_def wfBoard_def list_all_length)
  qed
  with wf show ?thesis by (simp add: wfBoard_def list_all_length putAt_def)
qed

lemma boardSet_wf:
  "wfBoard b \<Longrightarrow> isInBounds sq \<Longrightarrow> boardSet b (row sq) (col sq) v = Some (putAt b sq v)"
  using wfBoard_row [of b "row sq"]
  by (simp add: boardSet_def rowSet_def putAt_def isInBounds_def wfBoard_def)

lemma boardSet_wf':
  "wfBoard b \<Longrightarrow> isInBounds \<lparr>row = r, col = c\<rparr> \<Longrightarrow>
   boardSet b r c v = Some (putAt b \<lparr>row = r, col = c\<rparr> v)"
  using boardSet_wf [of b "\<lparr>row = r, col = c\<rparr>" v] by simp

lemma cellAt_putAt:
  "wfBoard b \<Longrightarrow> isInBounds sq \<Longrightarrow> isInBounds sq' \<Longrightarrow>
   cellAt (putAt b sq v) sq' = (if sq' = sq then v else cellAt b sq')"
  using wfBoard_row [of b "row sq"]
  by (auto simp: cellAt_def putAt_def isInBounds_def wfBoard_def nth_list_update square_eq_iff)

lemma simulateMove_wf:
  "wfBoard b \<Longrightarrow> isInBounds frm \<Longrightarrow> isInBounds to \<Longrightarrow>
   simulateMove b frm to = Some (simBoard b frm to)"
  by (simp add: simulateMove_def simBoard_def boardAt_sq boardSet_wf wfBoard_putAt)

lemma wfBoard_simBoard: "wfBoard b \<Longrightarrow> wfBoard (simBoard b frm to)"
  by (simp add: simBoard_def wfBoard_putAt)

lemma filterLegal_wf:
  assumes wf: "wfBoard b" and f: "isInBounds frm"
  shows "(\<forall>to\<in>set moves. isInBounds to) \<Longrightarrow>
         filterLegal b frm player moves
           = Some (filter (\<lambda>to. \<not> inCheck (simBoard b frm to) player) moves)"
proof (induction moves)
  case Nil
  then show ?case by simp
next
  case (Cons to moves)
  then have t: "isInBounds to" by simp
  from Cons show ?case
    by (simp add: simulateMove_wf [OF wf f t] isKingInCheck_wf [OF wfBoard_simBoard [OF wf]])
qed

lemma forEachPush_total:
  "(\<forall>x\<in>set xs. \<exists>ys. f x = Some ys) \<Longrightarrow> \<exists>zs. forEachPush f xs = Some zs"
  by (induction xs) auto

lemma forEachPush_member:
  "forEachPush f xs = Some zs \<Longrightarrow> z \<in> set zs \<Longrightarrow> \<exists>x\<in>set xs. \<exists>ys. f x = Some ys \<and> z \<in> set ys"
proof (induction xs arbitrary: zs)
  case Nil
  then show ?case by simp
next
  case (Cons x xs)
  from Cons.prems(1) obtain ys rest where
    ys: "f x = Some ys" and rest: "forEachPush f xs = Some rest" and zs: "zs = ys @ rest"
    by (auto split: Option.bind_splits)
  with Cons.prems(2) consider "z \<in> set ys" | "z \<in> set rest" by auto
  then show ?case
  proof cases
    case 1
    with ys show ?thesis by auto
  next
    case 2
    from Cons.IH [OF rest 2] show ?thesis by auto
  qed
qed

section \<open>Move generators on well-formed boards\<close>

lemma slide_fuel:
  assumes wf: "wfBoard b"
  shows "\<not> isInBounds \<lparr>row = row cur + int n * row dir, col = col cur + int n * col dir\<rparr> \<Longrightarrow>
         \<exists>ms. slide b (Some p) dir cur = Some ms \<and> (\<forall>to\<in>set ms. isInBounds to)"
proof (induction n arbitrary: cur)
  case 0
  then have "\<not> isInBounds cur" by simp
  then show ?case by (subst slide.simps) simp
next
  case (Suc n)
  show ?case
  proof (cases "isInBounds cur")
    case False
    then show ?thesis by (subst slide.simps) simp
  next
    case True
    let ?nx = "\<lparr>row = row cur + row dir, col = col cur + col dir\<rparr>"
    from Suc.prems have "\<not> isInBounds \<lparr>row = row ?nx + int n * row dir, col = col ?nx + int n * col dir\<rparr>"
      by (simp add: algebra_simps)
    from Suc.IH [OF this] obtain ms where
      ms: "slide b (Some p) dir ?nx = Some ms" "\<forall>to\<in>set ms. isInBounds to" by blast
    show ?thesis
      by (subst slide.simps) (use True ms in \<open>auto simp: boardAt_sq [OF wf True] split: option.splits\<close>)
  qed
qed

lemma slide_total:
  assumes wf: "wfBoard b" and u: "unitStep dir"
  shows "\<exists>ms. slide b (Some p) dir cur = Some ms \<and> (\<forall>to\<in>set ms. isInBounds to)"
proof (cases "isInBounds cur")
  case False
  then show ?thesis by (subst slide.simps) simp
next
  case True
  with u have "\<not> isInBounds \<lparr>row = row cur + int 8 * row dir, col = col cur + int 8 * col dir\<rparr>"
    unfolding unitStep_def isInBounds_def by auto
  from slide_fuel [OF wf this] show ?thesis .
qed

lemma unitStep_directions:
  "dir \<in> set rookDirections \<Longrightarrow> unitStep dir" "dir \<in> set bishopDirections \<Longrightarrow> unitStep dir"
  by (auto simp: rookDirections_def bishopDirections_def unitStep_def)

lemma slideAll_total:
  assumes wf: "wfBoard b" and f: "isInBounds frm" and p: "cellAt b frm = Some p"
    and dirs: "\<forall>dir\<in>set dirs. unitStep dir"
  shows "\<exists>ms. slideAll b frm dirs = Some ms"
  unfolding slideAll_def
  using forEachPush_total [of dirs "\<lambda>dir. slide b (Some p) dir \<lparr>row = row frm + row dir, col = col frm + col dir\<rparr>"]
    slide_total [OF wf] dirs
  by (simp add: boardAt_sq [OF wf f] p) blast

lemma slideAll_inBounds:
  assumes wf: "wfBoard b" and f: "isInBounds frm" and p: "cellAt b frm = Some p"
    and dirs: "\<forall>dir\<in>set dirs. unitStep dir"
    and res: "slideAll b frm dirs = Some ms" and mem: "to \<in> set ms"
  shows "isInBounds to"
proof -
  from res have "forEachPush (\<lambda>dir. slide b (Some p) dir \<lparr>row = row frm + row dir, col = col frm + col dir\<rparr>) dirs = Some ms"
    by (simp add: slideAll_def boardAt_sq [OF wf f] p)
  from forEachPush_member [OF this mem] obtain dir ys where
    d: "dir \<in> set dirs" and ys: "slide b (Some p) dir \<lparr>row = row frm + row dir, col = col frm + col dir\<rparr> = Some ys"
    and z: "to \<in> set ys" by blast
  from slide_total [OF wf, of dir p "\<lparr>row = row frm + row dir, col = col frm + col dir\<rparr>"] d dirs ys z
  show ?thesis by auto
qed

lemma stepAll_total:
  assumes wf: "wfBoard b"
  shows "\<exists>ms. stepAll b (Some p) frm offsets = Some ms"
  unfolding stepAll_def
proof (rule forEachPush_total, intro ballI)
  fix move
  let ?to = "\<lparr>row = row frm + row move, col = col frm + col move\<rparr>"
  show "\<exists>ys. (let to = ?to in
          if isInBounds to
          then boardAt b (row to) (col to) \<bind>
               (\<lambda>target. case target of None \<Rightarrow> Some [to]
                  | Some t \<Rightarrow> Some p \<bind> (\<lambda>p. Some (if color t \<noteq> color p then [to] else [])))
          else Some []) = Some ys"
  proof (cases "isInBounds ?to")
    case True
    from boardAt_sq [OF wf True] show ?thesis using True
      by (auto simp: Let_def split: option.splits)
  next
    case False
    then show ?thesis by (simp add: Let_def)
  qed
qed

lemma stepAll_member:
  assumes res: "stepAll b piece frm offsets = Some ms" and mem: "to \<in> set ms"
  shows "isInBounds to \<and> (\<exists>move\<in>set offsets. to = \<lparr>row = row frm + row move, col = col frm + col move\<rparr>)"
proof -
  from forEachPush_member [OF res [unfolded stepAll_def] mem] obtain move ys where
    m: "move \<in> set offsets" and
    ys: "(let to = \<lparr>row = row frm + row move, col = col frm + col move\<rparr> in
          if isInBounds to
          then boardAt b (row to) (col to) \<bind>
               (\<lambda>target. case target of None \<Rightarrow> Some [to]
                  | Some t \<Rightarrow> piece \<bind> (\<lambda>p. Some (if color t \<noteq> color p then [to] else [])))
          else Some []) = Some ys" and z: "to \<in> set ys"
    by blast
  from ys z have "isInBounds to \<and> to = \<lparr>row = row frm + row move, col = col frm + col move\<rparr>"
    by (auto simp: Let_def split: if_splits option.splits Option.bind_splits)
  with m show ?thesis by blast
qed

lemma boardAt_rc:
  "wfBoard b \<Longrightarrow> isInBounds \<lparr>row = r, col = c\<rparr> \<Longrightarrow>
   boardAt b r c = Some (cellAt b \<lparr>row = r, col = c\<rparr>)"
  using boardAt_sq [of b "\<lparr>row = r, col = c\<rparr>"] by simp

lemma pawnForward_total:
  assumes wf: "wfBoard b"
  shows "\<exists>ms. pawnForward b frm d s = Some ms"
proof -
  show ?thesis
    by (simp add: pawnForward_def Let_def boardAt_rc [OF wf])
qed

lemma pawnForward_member:
  assumes wf: "wfBoard b" and res: "pawnForward b frm d s = Some ms" and mem: "to \<in> set ms"
  shows "(to = \<lparr>row = row frm + d, col = col frm\<rparr> \<and> isInBounds to \<and> cellAt b to = None)
       \<or> (to = \<lparr>row = row frm + 2 * d, col = col frm\<rparr> \<and> isInBounds to \<and> cellAt b to = None
           \<and> isInBounds \<lparr>row = row frm + d, col = col frm\<rparr>
           \<and> cellAt b \<lparr>row = row frm + d, col = col frm\<rparr> = None)"
proof -
  from res mem show ?thesis
    by (auto simp: pawnForward_def Let_def boardAt_rc [OF wf] split: if_splits)
qed

lemma pawnCaptures_total:
  assumes wf: "wfBoard b"
  shows "\<exists>ms. pawnCaptures b frm p d = Some ms"
  unfolding pawnCaptures_def
proof (rule forEachPush_total, intro ballI)
  fix off
  let ?sq = "\<lparr>row = row frm + d, col = col frm + off\<rparr>"
  have "isInBounds ?sq \<Longrightarrow> boardAt b (row frm + d) (col frm + off) = Some (cellAt b ?sq)"
    using boardAt_sq [OF wf, of ?sq] by simp
  then show "\<exists>ys. (let captureSquare = ?sq in
          if isInBounds captureSquare
          then boardAt b (row captureSquare) (col captureSquare) \<bind>
               (\<lambda>target. Some (case target of None \<Rightarrow> []
                   | Some t \<Rightarrow> if color t \<noteq> color p then [captureSquare] else []))
          else Some []) = Some ys"
    by (simp add: Let_def)
qed

lemma pawnCaptures_member:
  assumes wf: "wfBoard b" and res: "pawnCaptures b frm p d = Some ms" and mem: "to \<in> set ms"
  shows "row to = row frm + d \<and> \<bar>col to - col frm\<bar> = 1 \<and> isInBounds to
         \<and> (\<exists>t. cellAt b to = Some t \<and> color t \<noteq> color p)"
proof -
  from forEachPush_member [OF res [unfolded pawnCaptures_def] mem] obtain off ys where
    off: "off \<in> set [- 1, 1::int]" and
    ys: "(let captureSquare = \<lparr>row = row frm + d, col = col frm + off\<rparr> in
          if isInBounds captureSquare
          then boardAt b (row captureSquare) (col captureSquare) \<bind>
               (\<lambda>target. Some (case target of None \<Rightarrow> []
                   | Some t \<Rightarrow> if color t \<noteq> color p then [captureSquare] else []))
          else Some []) = Some ys" and z: "to \<in> set ys"
    by blast
  let ?sq = "\<lparr>row = row frm + d, col = col frm + off\<rparr>"
  have rd: "isInBounds ?sq \<Longrightarrow> boardAt b (row frm + d) (col frm + off) = Some (cellAt b ?sq)"
    using boardAt_sq [OF wf, of ?sq] by simp
  from ys z have "to = ?sq \<and> isInBounds ?sq \<and> (\<exists>t. cellAt b ?sq = Some t \<and> color t \<noteq> color p)"
    by (auto simp: Let_def rd split: if_splits option.splits)
  with off show ?thesis by auto
qed

lemma pawnPassant_member:
  "to \<in> set (pawnPassant frm d ep) \<Longrightarrow> ep = Some to \<and> \<bar>col frm - col to\<bar> = 1 \<and> row frm = row to + d"
  by (auto simp: pawnPassant_def split: option.splits if_splits)

lemma getPawnMoves_total:
  assumes wf: "wfBoard b" and f: "isInBounds frm" and p: "cellAt b frm = Some p"
  shows "\<exists>ms. getPawnMoves b frm ep = Some ms"
proof -
  obtain fw where fw: "pawnForward b frm (pawnDir (color p)) (if color p = White then 6 else 1) = Some fw"
    using pawnForward_total [OF wf] by blast
  obtain cp where cp: "pawnCaptures b frm p (pawnDir (color p)) = Some cp"
    using pawnCaptures_total [OF wf] by blast
  show ?thesis
    using fw cp by (simp add: getPawnMoves_def boardAt_sq [OF wf f] p pawnDir_def Let_def)
qed

lemma getPawnMoves_member:
  assumes wf: "wfBoard b" and f: "isInBounds frm" and p: "cellAt b frm = Some p"
    and res: "getPawnMoves b frm ep = Some ms" and mem: "to \<in> set ms"
  defines "d \<equiv> pawnDir (color p)"
  shows "(to = \<lparr>row = row frm + d, col = col frm\<rparr> \<and> isInBounds to \<and> cellAt b to = None)
       \<or> (to = \<lparr>row = row frm + 2 * d, col = col frm\<rparr> \<and> isInBounds to \<and> cellAt b to = None
           \<and> isInBounds \<lparr>row = row frm + d, col = col frm\<rparr>
           \<and> cellAt b \<lparr>row = row frm + d, col = col frm\<rparr> = None)
       \<or> (row to = row frm + d \<and> \<bar>col to - col frm\<bar> = 1 \<and> isInBounds to
           \<and> (\<exists>t. cellAt b to = Some t \<and> color t \<noteq> color p))
       \<or> (ep = Some to \<and> \<bar>col frm - col to\<bar> = 1 \<and> row frm = row to + d)"
proof -
  from res obtain fw cp where
    fw: "pawnForward b frm d (if color p = White then 6 else 1) = Some fw" and
    cp: "pawnCaptures b frm p d = Some cp" and
    ms: "ms = fw @ cp @ pawnPassant frm d ep"
    by (auto simp: getPawnMoves_def boardAt_sq [OF wf f] p pawnDir_def d_def Let_def
        split: Option.bind_splits)
  from mem ms consider "to \<in> set fw" | "to \<in> set cp" | "to \<in> set (pawnPassant frm d ep)"
    by auto
  then show ?thesis
  proof cases
    case 1
    from pawnForward_member [OF wf fw 1] show ?thesis by blast
  next
    case 2
    from pawnCaptures_member [OF wf cp 2] show ?thesis by blast
  next
    case 3
    from pawnPassant_member [OF 3] show ?thesis by blast
  qed
qed

lemma those_total: "(\<forall>x\<in>set xs. \<exists>y. f x = Some y) \<Longrightarrow> \<exists>ys. those (map f xs) = Some ys"
  by (induction xs) auto

lemma those_all_None:
  "those (map f xs) = Some ys \<Longrightarrow> list_all (\<lambda>y. y = None) ys \<Longrightarrow> \<forall>x\<in>set xs. f x = Some None"
  by (induction xs arbitrary: ys) (auto split: option.splits)

lemma someUnderAttack_total:
  assumes wf: "wfBoard b"
  shows "(\<forall>sq\<in>set sqs. isInBounds sq) \<Longrightarrow> \<exists>r. someUnderAttack b ac sqs = Some r"
  by (induction sqs) (auto simp: isSquareUnderAttack_wf [OF wf])

lemma castleSide_member:
  assumes res: "castleSide b frm piece rookCol emptyCols testCols destCol = Some ms"
    and mem: "to \<in> set ms"
  shows "to = \<lparr>row = row frm, col = destCol\<rparr>
         \<and> (\<exists>r. boardAt b (row frm) rookCol = Some (Some r) \<and> ptype r = Rook \<and> \<not> hasMoved r)
         \<and> (\<forall>c\<in>set emptyCols. boardAt b (row frm) c = Some None)"
proof -
  from res mem obtain r where
    r: "boardAt b (row frm) rookCol = Some (Some r)" "ptype r = Rook" "\<not> hasMoved r"
    by (auto simp: castleSide_def split: Option.bind_splits option.splits if_splits)
  with res mem obtain cells where
    cells: "those (map (\<lambda>c. boardAt b (row frm) c) emptyCols) = Some cells"
      "list_all (\<lambda>cell. cell = None) cells"
    by (auto simp: castleSide_def split: Option.bind_splits if_splits)
  from res mem r cells(1) cells(2) have "to = \<lparr>row = row frm, col = destCol\<rparr>"
    by (auto simp: castleSide_def split: Option.bind_splits if_splits)
  with r those_all_None [OF cells] show ?thesis by blast
qed

lemma castleSide_total:
  assumes wf: "wfBoard b" and f: "isInBounds frm"
    and rc: "0 \<le> rookCol" "rookCol < 8"
    and ec: "\<forall>c\<in>set emptyCols. 0 \<le> c \<and> c < 8"
    and tc: "\<forall>c\<in>set testCols. 0 \<le> c \<and> c < 8"
  shows "\<exists>ms. castleSide b frm piece rookCol emptyCols testCols destCol = Some ms"
proof -
  have rd: "boardAt b (row frm) c = Some (cellAt b \<lparr>row = row frm, col = c\<rparr>)" if "0 \<le> c" "c < 8" for c
    using boardAt_rc [OF wf, of "row frm" c] f that by (simp add: isInBounds_def)
  obtain cells where cells: "those (map (\<lambda>c. boardAt b (row frm) c) emptyCols) = Some cells"
    using those_total [of emptyCols "\<lambda>c. boardAt b (row frm) c"] ec rd by blast
  have "\<forall>sq\<in>set (map (\<lambda>c. \<lparr>row = row frm, col = c\<rparr>) testCols). isInBounds sq"
    using tc f by (auto simp: isInBounds_def)
  from someUnderAttack_total [OF wf this]
  have a: "\<exists>a. someUnderAttack b ac (map (\<lambda>c. \<lparr>row = row frm, col = c\<rparr>) testCols) = Some a" for ac
    by blast
  show ?thesis
    using a [of Black] a [of White]
    by (auto simp: castleSide_def rd [OF rc] cells split: option.splits)
qed

lemma getKingMoves_total:
  assumes wf: "wfBoard b" and f: "isInBounds frm" and p: "cellAt b frm = Some p"
  shows "\<exists>ms. getKingMoves b frm h = Some ms"
proof -
  obtain nm where nm: "stepAll b (Some p) frm kingMoves = Some nm"
    using stepAll_total [OF wf] by blast
  obtain ks where ks: "castleSide b frm p 7 [5, 6] [5, 6] 6 = Some ks"
    using castleSide_total [OF wf f, of 7 "[5, 6]" "[5, 6]" p 6] by auto
  obtain qs where qs: "castleSide b frm p 0 [1, 2, 3] [2, 3] 2 = Some qs"
    using castleSide_total [OF wf f, of 0 "[1, 2, 3]" "[2, 3]" p 2] by auto
  show ?thesis
    by (simp add: getKingMoves_def boardAt_sq [OF wf f] p nm ks qs isKingInCheck_wf [OF wf])
qed

lemma kingMoves_cols: "move \<in> set kingMoves \<Longrightarrow> \<bar>col move\<bar> \<le> 1 \<and> \<bar>row move\<bar> \<le> 1"
  by (auto simp: kingMoves_def)

lemma getKingMoves_member:
  assumes wf: "wfBoard b" and f: "isInBounds frm" and p: "cellAt b frm = Some p"
    and res: "getKingMoves b frm h = Some ms" and mem: "to \<in> set ms"
  shows "(isInBounds to \<and> \<bar>col to - col frm\<bar> \<le> 1)
       \<or> (\<not> hasMoved p \<and> to = \<lparr>row = row frm, col = 6\<rparr>
           \<and> (\<exists>r. cellAt b \<lparr>row = row frm, col = 7\<rparr> = Some r \<and> ptype r = Rook \<and> \<not> hasMoved r)
           \<and> cellAt b \<lparr>row = row frm, col = 5\<rparr> = None
           \<and> cellAt b \<lparr>row = row frm, col = 6\<rparr> = None)
       \<or> (\<not> hasMoved p \<and> to = \<lparr>row = row frm, col = 2\<rparr>
           \<and> (\<exists>r. cellAt b \<lparr>row = row frm, col = 0\<rparr> = Some r \<and> ptype r = Rook \<and> \<not> hasMoved r)
           \<and> cellAt b \<lparr>row = row frm, col = 1\<rparr> = None
           \<and> cellAt b \<lparr>row = row frm, col = 2\<rparr> = None
           \<and> cellAt b \<lparr>row = row frm, col = 3\<rparr> = None)"
proof -
  have rd: "boardAt b (row frm) c = Some (cellAt b \<lparr>row = row frm, col = c\<rparr>)" if "0 \<le> c" "c < 8" for c
    using boardAt_rc [OF wf, of "row frm" c] f that by (simp add: isInBounds_def)
  from res obtain nm cs where
    nm: "stepAll b (Some p) frm kingMoves = Some nm" and ms: "ms = nm @ cs" and
    cs: "(if \<not> hasMoved p
          then isKingInCheck b (color p) \<bind>
               (\<lambda>inCheck. if \<not> inCheck
                   then castleSide b frm p 7 [5, 6] [5, 6] 6 \<bind>
                        (\<lambda>kingSide. castleSide b frm p 0 [1, 2, 3] [2, 3] 2 \<bind>
                           (\<lambda>queenSide. Some (kingSide @ queenSide)))
                   else Some [])
          else Some []) = Some cs"
    by (auto simp: getKingMoves_def boardAt_sq [OF wf f] p split: Option.bind_splits)
  from mem ms consider "to \<in> set nm" | "to \<in> set cs" by auto
  then show ?thesis
  proof cases
    case 1
    from stepAll_member [OF nm 1] kingMoves_cols show ?thesis by auto
  next
    case 2
    with cs have nmv: "\<not> hasMoved p" by (auto split: if_splits)
    from cs nmv obtain ks qs where
      ks: "castleSide b frm p 7 [5, 6] [5, 6] 6 = Some ks" and
      qs: "castleSide b frm p 0 [1, 2, 3] [2, 3] 2 = Some qs" and
      csq: "cs = [] \<or> cs = ks @ qs"
      using castleSide_total [OF wf f, of 7 "[5, 6]" "[5, 6]" p 6]
        castleSide_total [OF wf f, of 0 "[1, 2, 3]" "[2, 3]" p 2]
      by (auto split: Option.bind_splits if_splits)
    from 2 csq consider "to \<in> set ks" | "to \<in> set qs" by auto
    then show ?thesis
    proof cases
      case 1
      from castleSide_member [OF ks 1] nmv show ?thesis
        by (auto simp: rd)
    next
      case 2
      from castleSide_member [OF qs 2] nmv show ?thesis
        by (auto simp: rd)
    qed
  qed
qed

section \<open>The check test\<close>

lemma holdsKing_wf:
  "wfBoard b \<Longrightarrow> isInBounds sq \<Longrightarrow> holdsKing b kc sq = isKingAt b kc sq"
  by (simp add: holdsKing_def isKingAt_def boardAt_sq split: option.splits)

lemma find_holdsKing:
  assumes "wfBoard b"
  shows "find (holdsKing b kc) boardSquares = find (isKingAt b kc) boardSquares"
  by (rule find_cong) (simp_all add: set_boardSquares holdsKing_wf [OF assms])

text \<open>
  C8 (check test). On an 8 by 8 board with no king of the queried colour on any square,
  \<open>isKingInCheck\<close> returns \<open>False\<close> (it returns, it does not raise). On a board with
  such a king, with \<open>k\<close> the first square in row-major order that holds one (the only one
  on a valid board), it returns \<open>True\<close> exactly when \<open>k\<close> is attacked by the opposing
  colour: some square of the board holds a piece of that colour whose attack pattern
  (\<open>attacks\<close>: the two forward diagonals of a pawn, the L of a knight, the neighbouring
  squares of a king, the lines of rook, bishop and queen with every square strictly
  between empty) reaches \<open>k\<close>.
\<close>

theorem isKingInCheck_missing_king_or_attacked:
  assumes "wfBoard b"
  shows "(\<not> list_ex (holdsKing b kingColor) boardSquares \<longrightarrow> isKingInCheck b kingColor = Some False)
       \<and> (\<forall>k. find (holdsKing b kingColor) boardSquares = Some k \<longrightarrow>
              isKingInCheck b kingColor = Some (attackedBy b k (opponentOf kingColor)))"
proof (intro conjI allI impI)
  assume "\<not> list_ex (holdsKing b kingColor) boardSquares"
  then have "find (holdsKing b kingColor) boardSquares = None"
    by (simp add: find_None_iff list_ex_iff)
  then show "isKingInCheck b kingColor = Some False"
    by (simp add: isKingInCheck_wf [OF assms] inCheck_def find_holdsKing [OF assms, symmetric])
next
  fix k
  assume "find (holdsKing b kingColor) boardSquares = Some k"
  then show "isKingInCheck b kingColor = Some (attackedBy b k (opponentOf kingColor))"
    by (simp add: isKingInCheck_wf [OF assms] inCheck_def find_holdsKing [OF assms, symmetric])
qed

theorem isKingInCheck_missing_king_or_attacked_witness:
  "wfBoard rookCheckBoard
   \<and> \<not> list_ex (holdsKing rookCheckBoard Black) boardSquares
   \<and> isKingInCheck rookCheckBoard Black = Some False
   \<and> find (holdsKing rookCheckBoard White) boardSquares = Some \<lparr>row = 7, col = 4\<rparr>
   \<and> isKingInCheck rookCheckBoard White = Some True
   \<and> attackedBy rookCheckBoard \<lparr>row = 7, col = 4\<rparr> Black"
proof -
  have wf: "wfBoard rookCheckBoard" by code_simp
  have nk: "\<not> list_ex (holdsKing rookCheckBoard Black) boardSquares" by code_simp
  have k: "find (holdsKing rookCheckBoard White) boardSquares = Some \<lparr>row = 7, col = 4\<rparr>"
    by code_simp
  have chk: "isKingInCheck rookCheckBoard White = Some True" by code_simp
  have o: "opponentOf White = Black" by (simp add: opponentOf_def)
  from isKingInCheck_missing_king_or_attacked [OF wf, of Black] nk
  have none: "isKingInCheck rookCheckBoard Black = Some False" by blast
  from isKingInCheck_missing_king_or_attacked [OF wf, of White] k
  have "isKingInCheck rookCheckBoard White
      = Some (attackedBy rookCheckBoard \<lparr>row = 7, col = 4\<rparr> (opponentOf White))" by blast
  with chk o have att: "attackedBy rookCheckBoard \<lparr>row = 7, col = 4\<rparr> Black" by simp
  from wf nk none k chk att show ?thesis by (intro conjI)
qed

section \<open>Legal moves and move attempts\<close>

lemma pieceMoves_total:
  assumes wf: "wfBoard b" and f: "isInBounds frm" and p: "cellAt b frm = Some p"
  shows "\<exists>ms. pieceMoves b frm p ep h = Some ms"
proof (cases "ptype p")
  case King
  with getKingMoves_total [OF wf f p] show ?thesis by (simp add: pieceMoves_def)
next
  case Queen
  obtain rs where rs: "slideAll b frm rookDirections = Some rs"
    using slideAll_total [OF wf f p] unitStep_directions by blast
  obtain bs where bs: "slideAll b frm bishopDirections = Some bs"
    using slideAll_total [OF wf f p] unitStep_directions by blast
  from Queen rs bs show ?thesis
    by (simp add: pieceMoves_def getQueenMoves_def getRookMoves_def getBishopMoves_def)
next
  case Rook
  with slideAll_total [OF wf f p, of rookDirections] unitStep_directions show ?thesis
    by (simp add: pieceMoves_def getRookMoves_def)
next
  case Bishop
  with slideAll_total [OF wf f p, of bishopDirections] unitStep_directions show ?thesis
    by (simp add: pieceMoves_def getBishopMoves_def)
next
  case Knight
  with stepAll_total [OF wf, of p frm knightMoves] show ?thesis
    by (simp add: pieceMoves_def getKnightMoves_def boardAt_sq [OF wf f] p)
next
  case Pawn
  with getPawnMoves_total [OF wf f p] show ?thesis by (simp add: pieceMoves_def)
qed

lemma pieceMoves_inBounds:
  assumes wf: "wfBoard b" and f: "isInBounds frm" and p: "cellAt b frm = Some p"
    and ep: "epOk ep"
    and res: "pieceMoves b frm p ep h = Some ms" and mem: "to \<in> set ms"
  shows "isInBounds to"
proof (cases "ptype p")
  case King
  with res have "getKingMoves b frm h = Some ms" by (simp add: pieceMoves_def)
  from getKingMoves_member [OF wf f p this mem] f show ?thesis
    by (auto simp: isInBounds_def)
next
  case Queen
  with res obtain rs bs where
    rs: "slideAll b frm rookDirections = Some rs" and
    bs: "slideAll b frm bishopDirections = Some bs" and ms: "ms = rs @ bs"
    by (auto simp: pieceMoves_def getQueenMoves_def getRookMoves_def getBishopMoves_def
        split: Option.bind_splits)
  from mem ms consider "to \<in> set rs" | "to \<in> set bs" by auto
  then show ?thesis
  proof cases
    case 1
    from slideAll_inBounds [OF wf f p _ rs 1] unitStep_directions show ?thesis by blast
  next
    case 2
    from slideAll_inBounds [OF wf f p _ bs 2] unitStep_directions show ?thesis by blast
  qed
next
  case Rook
  with res have "slideAll b frm rookDirections = Some ms"
    by (simp add: pieceMoves_def getRookMoves_def)
  from slideAll_inBounds [OF wf f p _ this mem] unitStep_directions show ?thesis by blast
next
  case Bishop
  with res have "slideAll b frm bishopDirections = Some ms"
    by (simp add: pieceMoves_def getBishopMoves_def)
  from slideAll_inBounds [OF wf f p _ this mem] unitStep_directions show ?thesis by blast
next
  case Knight
  with res have "stepAll b (Some p) frm knightMoves = Some ms"
    by (simp add: pieceMoves_def getKnightMoves_def boardAt_sq [OF wf f] p)
  from stepAll_member [OF this mem] show ?thesis by blast
next
  case Pawn
  with res have "getPawnMoves b frm ep = Some ms" by (simp add: pieceMoves_def)
  from getPawnMoves_member [OF wf f p this mem] ep show ?thesis
    by (auto simp: epOk_def)
qed

lemma getValidMoves_other:
  assumes wf: "wfBoard b" and f: "isInBounds frm"
    and np: "\<forall>p. cellAt b frm = Some p \<longrightarrow> color p \<noteq> player"
  shows "getValidMoves b frm player ep h = Some []"
  using np by (auto simp: getValidMoves_def boardAt_sq [OF wf f] split: option.splits)

lemma getValidMoves_own:
  assumes wf: "wfBoard b" and f: "isInBounds frm" and p: "cellAt b frm = Some p"
    and own: "color p = player" and ep: "epOk ep"
  shows "\<exists>ms. pieceMoves b frm p ep h = Some ms
           \<and> getValidMoves b frm player ep h
               = Some (filter (\<lambda>to. \<not> inCheck (simBoard b frm to) player) ms)"
proof -
  obtain ms where ms: "pieceMoves b frm p ep h = Some ms"
    using pieceMoves_total [OF wf f p] by blast
  have "\<forall>to\<in>set ms. isInBounds to"
    using pieceMoves_inBounds [OF wf f p ep ms] by blast
  from filterLegal_wf [OF wf f this] ms own show ?thesis
    by (simp add: getValidMoves_def boardAt_sq [OF wf f] p)
qed

lemma getValidMoves_total:
  assumes wf: "wfBoard b" and f: "isInBounds frm" and ep: "epOk ep"
  shows "\<exists>ms. getValidMoves b frm player ep h = Some ms"
proof (cases "\<exists>p. cellAt b frm = Some p \<and> color p = player")
  case True
  then obtain p where "cellAt b frm = Some p" "color p = player" by blast
  from getValidMoves_own [OF wf f this ep] show ?thesis by blast
next
  case False
  then have "\<forall>p. cellAt b frm = Some p \<longrightarrow> color p \<noteq> player" by blast
  from getValidMoves_other [OF wf f this] show ?thesis by blast
qed

lemma getValidMoves_member:
  assumes wf: "wfBoard b" and f: "isInBounds frm" and ep: "epOk ep"
    and res: "getValidMoves b frm player ep h = Some legal" and mem: "to \<in> set legal"
  shows "\<exists>p ms. cellAt b frm = Some p \<and> color p = player \<and> pieceMoves b frm p ep h = Some ms
           \<and> to \<in> set ms \<and> isInBounds to \<and> \<not> inCheck (simBoard b frm to) player"
proof (cases "\<exists>p. cellAt b frm = Some p \<and> color p = player")
  case True
  then obtain p where p: "cellAt b frm = Some p" "color p = player" by blast
  from getValidMoves_own [OF wf f p ep, of h] res obtain ms where
    ms: "pieceMoves b frm p ep h = Some ms"
    and lg: "legal = filter (\<lambda>to. \<not> inCheck (simBoard b frm to) player) ms"
    by auto
  from mem lg have "to \<in> set ms" "\<not> inCheck (simBoard b frm to) player" by auto
  with p ms pieceMoves_inBounds [OF wf f p(1) ep ms] show ?thesis by blast
next
  case False
  then have "\<forall>p. cellAt b frm = Some p \<longrightarrow> color p \<noteq> player" by blast
  from getValidMoves_other [OF wf f this, of ep h] res mem show ?thesis by simp
qed

lemma hasValidMovesScan_wf:
  assumes wf: "wfBoard b" and ep: "epOk ep"
  shows "(\<forall>sq\<in>set sqs. isInBounds sq) \<Longrightarrow>
         hasValidMovesScan b player ep h sqs
           = Some (\<not> (\<forall>sq\<in>set sqs. getValidMoves b sq player ep h = Some []))"
proof (induction sqs)
  case Nil
  then show ?case by simp
next
  case (Cons a sqs)
  then have a: "isInBounds a" by simp
  from Cons have IH: "hasValidMovesScan b player ep h sqs
      = Some (\<not> (\<forall>sq\<in>set sqs. getValidMoves b sq player ep h = Some []))" by simp
  show ?case
  proof (cases "\<exists>p. cellAt b a = Some p \<and> color p = player")
    case True
    then obtain p where p: "cellAt b a = Some p" "color p = player" by blast
    obtain ms where ms: "getValidMoves b a player ep h = Some ms"
      using getValidMoves_total [OF wf a ep] by blast
    show ?thesis
      using p ms IH by (cases ms) (simp_all add: boardAt_sq [OF wf a])
  next
    case False
    then have np: "\<forall>p. cellAt b a = Some p \<longrightarrow> color p \<noteq> player" by blast
    from getValidMoves_other [OF wf a np] np IH show ?thesis
      by (cases "cellAt b a") (simp_all add: boardAt_sq [OF wf a])
  qed
qed

lemma hasValidMoves_wf:
  assumes "wfBoard b" "epOk ep"
  shows "hasValidMoves b player ep h
           = Some (\<not> (\<forall>sq\<in>set boardSquares. getValidMoves b sq player ep h = Some []))"
  unfolding hasValidMoves_def
  by (rule hasValidMovesScan_wf [OF assms]) (simp add: set_boardSquares)

lemma makeMove_fields:
  assumes "makeMove st frm to = Some st'"
  shows "currentPlayer st' = (if currentPlayer st = White then Black else White)"
    and "\<exists>piece. boardAt (board st) (row frm) (col frm) = Some (Some piece)
           \<and> moveBoard (board st) (enPassantTarget st) piece frm to = Some (board st')
           \<and> enPassantTarget st' = nextEnPassantTarget piece frm to"
  using assms by (auto simp: makeMove_def Let_def split: Option.bind_splits)

lemma list_ex_square:
  "list_ex (\<lambda>move. row move = row to \<and> col move = col to) ms \<longleftrightarrow> (to::ChessSquare) \<in> set ms"
proof -
  have "(row move = row to \<and> col move = col to) \<longleftrightarrow> move = to" for move
    by (simp add: square_eq_iff)
  then show ?thesis by (simp add: list_ex_iff)
qed

lemma handlePieceMove_changes:
  assumes "isValidMoveAttempt (board st) frm to (currentPlayer st) (enPassantTarget st) (moveHistory st) = Some True"
  shows "handlePieceMove st frm to \<noteq> Some st"
proof
  assume h: "handlePieceMove st frm to = Some st"
  with assms obtain st' where mk: "makeMove st frm to = Some st'"
    and eq: "st = st'\<lparr>selectedSquare := None\<rparr>"
    by (auto simp: handlePieceMove_def split: Option.bind_splits)
  from eq have "currentPlayer st = currentPlayer st'"
    by (metis GameState.select_convs(2) GameState.surjective GameState.update_convs(3))
  with makeMove_fields(1) [OF mk] show False by (auto split: if_splits)
qed

text \<open>
  C5 (rejected move attempts). In a state whose board is 8 by 8 and whose en passant target,
  if any, is on the board, and for an origin square on the board and any destination
  whatsoever, \<open>isValidMove\<close> returns a boolean and the legal-move generator returns a
  list (neither raises). The boolean is false exactly when the origin holds no piece, or
  holds a piece of the side not to move, or the destination is not among the legal moves.
  When it is false \<open>handlePieceMove\<close> returns the state unchanged (board, player,
  history, status and en passant target included); when it is true the state changes.
\<close>

theorem move_attempt_rejected_iff:
  assumes wf: "wfBoard (board st)" and f: "isInBounds frm" and ep: "epOk (enPassantTarget st)"
  shows "\<exists>ok legal.
           isValidMove st frm to = Some ok
         \<and> getValidMoves (board st) frm (currentPlayer st) (enPassantTarget st) (moveHistory st)
             = Some legal
         \<and> (\<not> ok \<longleftrightarrow>
              boardAt (board st) (row frm) (col frm) = Some None
              \<or> (\<exists>p. boardAt (board st) (row frm) (col frm) = Some (Some p)
                       \<and> color p \<noteq> currentPlayer st)
              \<or> to \<notin> set legal)
         \<and> (\<not> ok \<longrightarrow> handlePieceMove st frm to = Some st)
         \<and> (ok \<longrightarrow> handlePieceMove st frm to \<noteq> Some st)"
proof -
  let ?b = "board st" and ?pl = "currentPlayer st" and ?ep = "enPassantTarget st"
  let ?h = "moveHistory st"
  obtain legal where legal: "getValidMoves ?b frm ?pl ?ep ?h = Some legal"
    using getValidMoves_total [OF wf f ep] by blast
  define ok where "ok = (\<exists>p. cellAt ?b frm = Some p \<and> color p = ?pl \<and> to \<in> set legal)"
  have att: "isValidMoveAttempt ?b frm to ?pl ?ep ?h = Some ok"
    by (cases "cellAt ?b frm")
      (auto simp: isValidMoveAttempt_def boardAt_sq [OF wf f] legal list_ex_square ok_def)
  have iff: "\<not> ok \<longleftrightarrow>
      boardAt ?b (row frm) (col frm) = Some None
      \<or> (\<exists>p. boardAt ?b (row frm) (col frm) = Some (Some p) \<and> color p \<noteq> ?pl)
      \<or> to \<notin> set legal"
    by (cases "cellAt ?b frm") (auto simp: boardAt_sq [OF wf f] ok_def)
  have rej: "\<not> ok \<longrightarrow> handlePieceMove st frm to = Some st"
    by (simp add: handlePieceMove_def att)
  have acc: "ok \<longrightarrow> handlePieceMove st frm to \<noteq> Some st"
    using handlePieceMove_changes [of st frm to] att by auto
  from att legal iff rej acc show ?thesis
    unfolding isValidMove_def by blast
qed

theorem move_attempt_rejected_iff_witness:
  "wfBoard (board initialState) \<and> isInBounds \<lparr>row = 6, col = 4\<rparr>
   \<and> epOk (enPassantTarget initialState)
   \<and> isValidMove initialState \<lparr>row = 6, col = 4\<rparr> \<lparr>row = 3, col = 4\<rparr> = Some False
   \<and> handlePieceMove initialState \<lparr>row = 6, col = 4\<rparr> \<lparr>row = 3, col = 4\<rparr> = Some initialState"
proof -
  have wf: "wfBoard (board initialState)" by code_simp
  have f: "isInBounds \<lparr>row = 6, col = 4\<rparr>" by code_simp
  have ep: "epOk (enPassantTarget initialState)" by code_simp
  have v: "isValidMove initialState \<lparr>row = 6, col = 4\<rparr> \<lparr>row = 3, col = 4\<rparr> = Some False"
    by code_simp
  from move_attempt_rejected_iff [OF wf f ep, of "\<lparr>row = 3, col = 4\<rparr>"] v
  have "handlePieceMove initialState \<lparr>row = 6, col = 4\<rparr> \<lparr>row = 3, col = 4\<rparr> = Some initialState"
    by auto
  with wf f ep v show ?thesis by simp
qed

section \<open>Applying a move\<close>

lemma rook_inBounds:
  "isInBounds frm \<Longrightarrow> isInBounds (rookFrom frm side)"
  "isInBounds frm \<Longrightarrow> isInBounds (rookTo frm side)"
  by (simp_all add: isInBounds_def rookFrom_def rookTo_def)

lemma wfBoard_castledBoard: "wfBoard b \<Longrightarrow> wfBoard (castledBoard b piece frm to)"
  by (simp add: castledBoard_def wfBoard_putAt split: option.splits)

lemma wfBoard_passantBoard: "wfBoard b \<Longrightarrow> wfBoard (passantBoard b ep piece frm to)"
  by (simp add: passantBoard_def wfBoard_putAt wfBoard_castledBoard)

lemma wfBoard_finalBoard: "wfBoard b \<Longrightarrow> wfBoard (finalBoard b ep piece frm to)"
  by (simp add: finalBoard_def wfBoard_putAt wfBoard_passantBoard)

lemma moveBoard_wf:
  assumes wf: "wfBoard b" and f: "isInBounds frm" and t: "isInBounds to"
    and rook: "\<And>side. castlingOf piece frm to = Some side \<Longrightarrow> cellAt b (rookFrom frm side) \<noteq> None"
  shows "moveBoard b ep piece frm to = Some (finalBoard b ep piece frm to)"
proof -
  have b1: "(case castlingOf piece frm to of
        None \<Rightarrow> Some b
      | Some side \<Rightarrow> do {
          let rookFromCol = (if side = Kingside then 7 else 0);
          let rookToCol = (if side = Kingside then 5 else 3);
          rookCell \<leftarrow> boardAt b (row frm) rookFromCol;
          rook \<leftarrow> rookCell;
          b' \<leftarrow> boardSet b (row frm) rookToCol (Some (rook\<lparr>hasMoved := True\<rparr>));
          boardSet b' (row frm) rookFromCol None })
      = Some (castledBoard b piece frm to)"
  proof (cases "castlingOf piece frm to")
    case None
    then show ?thesis by (simp add: castledBoard_def)
  next
    case (Some side)
    from rook [OF Some] obtain r where r: "cellAt b (rookFrom frm side) = Some r" by blast
    have rf: "boardAt b (row frm) (if side = Kingside then 7 else 0) = Some (Some r)"
      using boardAt_sq [OF wf rook_inBounds(1) [OF f], of side] r by (simp add: rookFrom_def)
    have w1: "boardSet b (row frm) (if side = Kingside then 5 else 3) v
        = Some (putAt b (rookTo frm side) v)" for v
      using boardSet_wf [OF wf rook_inBounds(2) [OF f], of side v] by (simp add: rookTo_def)
    have w2: "boardSet (putAt b (rookTo frm side) v) (row frm) (if side = Kingside then 7 else 0) None
        = Some (putAt (putAt b (rookTo frm side) v) (rookFrom frm side) None)" for v
      using boardSet_wf [OF wfBoard_putAt [OF wf] rook_inBounds(1) [OF f], of "rookTo frm side" v side None]
      by (simp add: rookFrom_def)
    show ?thesis
      by (simp add: Some Let_def rf w1 w2 castledBoard_def r)
  qed
  have wf1: "wfBoard (castledBoard b piece frm to)" by (rule wfBoard_castledBoard [OF wf])
  have ft: "isInBounds \<lparr>row = row frm, col = col to\<rparr>"
    using f t by (simp add: isInBounds_def)
  have b2: "(if passantOf piece ep to
             then boardSet (castledBoard b piece frm to) (row frm) (col to) None
             else Some (castledBoard b piece frm to))
      = Some (passantBoard b ep piece frm to)"
    using boardSet_wf [OF wf1 ft, of None] by (simp add: passantBoard_def)
  have wf2: "wfBoard (passantBoard b ep piece frm to)" by (rule wfBoard_passantBoard [OF wf])
  have b3: "boardSet (passantBoard b ep piece frm to) (row to) (col to) v
      = Some (putAt (passantBoard b ep piece frm to) to v)" for v
    by (rule boardSet_wf [OF wf2 t])
  have b4: "boardSet (putAt (passantBoard b ep piece frm to) to v) (row frm) (col frm) None
      = Some (putAt (putAt (passantBoard b ep piece frm to) to v) frm None)" for v
    by (rule boardSet_wf [OF wfBoard_putAt [OF wf2] f])
  have p1: "boardSet (castledBoard b piece frm to) (row frm) (col to) None
      = Some (putAt (castledBoard b piece frm to) \<lparr>row = row frm, col = col to\<rparr> None)"
    using boardSet_wf [OF wf1 ft, of None] by simp
  have b3': "boardSet (putAt (castledBoard b piece frm to) \<lparr>row = row frm, col = col to\<rparr> None)
         (row to) (col to) v
      = Some (putAt (putAt (castledBoard b piece frm to) \<lparr>row = row frm, col = col to\<rparr> None) to v)"
    for v by (rule boardSet_wf [OF wfBoard_putAt [OF wf1] t])
  have b3'': "boardSet (castledBoard b piece frm to) (row to) (col to) v
      = Some (putAt (castledBoard b piece frm to) to v)" for v
    by (rule boardSet_wf [OF wf1 t])
  have b4': "boardSet (putAt c to v) (row frm) (col frm) None = Some (putAt (putAt c to v) frm None)"
    if "wfBoard c" for c v
    by (rule boardSet_wf [OF wfBoard_putAt [OF that] f])
  show ?thesis
  proof (cases "passantOf piece ep to")
    case True
    then show ?thesis
      unfolding moveBoard_def b1
      by (simp add: p1 b3' b4' wfBoard_putAt wf1 finalBoard_def movedPiece_def passantBoard_def)
  next
    case False
    then show ?thesis
      unfolding moveBoard_def b1
      by (simp add: b3'' b4' wf1 finalBoard_def movedPiece_def passantBoard_def)
  qed
qed

lemma castling_rook_present:
  assumes wf: "wfBoard b" and f: "isInBounds frm" and p: "cellAt b frm = Some piece"
    and ms: "pieceMoves b frm piece ep h = Some ms" and mem: "to \<in> set ms"
    and c: "castlingOf piece frm to = Some side"
  shows "\<not> hasMoved piece \<and> col frm = 4 \<and> row to = row frm
         \<and> col to = (if side = Kingside then 6 else 2)
         \<and> (\<exists>r. cellAt b (rookFrom frm side) = Some r \<and> ptype r = Rook \<and> \<not> hasMoved r)
         \<and> cellAt b (rookTo frm side) = None \<and> cellAt b to = None"
proof -
  from c have k: "ptype piece = King" and two: "\<bar>col to - col frm\<bar> = 2"
    and side: "side = (if col to > col frm then Kingside else Queenside)"
    by (auto simp: castlingOf_def split: if_splits)
  from ms k have "getKingMoves b frm h = Some ms" by (simp add: pieceMoves_def)
  from getKingMoves_member [OF wf f p this mem] two
  consider
    (ks) "\<not> hasMoved piece" "to = \<lparr>row = row frm, col = 6\<rparr>"
      "\<exists>r. cellAt b \<lparr>row = row frm, col = 7\<rparr> = Some r \<and> ptype r = Rook \<and> \<not> hasMoved r"
      "cellAt b \<lparr>row = row frm, col = 5\<rparr> = None" "cellAt b \<lparr>row = row frm, col = 6\<rparr> = None"
  | (qs) "\<not> hasMoved piece" "to = \<lparr>row = row frm, col = 2\<rparr>"
      "\<exists>r. cellAt b \<lparr>row = row frm, col = 0\<rparr> = Some r \<and> ptype r = Rook \<and> \<not> hasMoved r"
      "cellAt b \<lparr>row = row frm, col = 3\<rparr> = None" "cellAt b \<lparr>row = row frm, col = 2\<rparr> = None"
    by auto
  then show ?thesis
  proof cases
    case ks
    from ks(2) two f have "col frm = 4" by (auto simp: isInBounds_def)
    with ks side show ?thesis by (simp add: rookFrom_def rookTo_def)
  next
    case qs
    from qs(2) two have "col frm = 0 \<or> col frm = 4" by auto
    moreover have "col frm \<noteq> 0"
    proof
      assume "col frm = 0"
      then have "\<lparr>row = row frm, col = 0\<rparr> = frm" by (simp add: square_eq_iff)
      with qs(3) p k show False by auto
    qed
    ultimately have "col frm = 4" by simp
    with qs side show ?thesis by (simp add: rookFrom_def rookTo_def)
  qed
qed

lemma nextEnPassantTarget_ok:
  assumes "isInBounds frm" "isInBounds to"
  shows "epOk (nextEnPassantTarget piece frm to)"
  using assms by (auto simp: epOk_def nextEnPassantTarget_def isInBounds_def)

lemma valid_attempt_facts:
  assumes wf: "wfBoard b" and ep: "epOk ep"
    and ok: "isValidMoveAttempt b frm to player ep h = Some True"
  shows "\<exists>piece ms. isInBounds frm \<and> cellAt b frm = Some piece \<and> color piece = player
           \<and> pieceMoves b frm piece ep h = Some ms \<and> to \<in> set ms \<and> isInBounds to
           \<and> \<not> inCheck (simBoard b frm to) player"
proof -
  from ok obtain piece legal where
    pc: "boardAt b (row frm) (col frm) = Some (Some piece)" and
    legal: "getValidMoves b frm player ep h = Some legal" and mem: "to \<in> set legal"
    by (auto simp: isValidMoveAttempt_def list_ex_square
        split: Option.bind_splits option.splits if_splits)
  from boardAt_Some_piece [OF wf pc] have f: "isInBounds frm" and p: "cellAt b frm = Some piece"
    by simp_all
  from getValidMoves_member [OF wf f ep legal mem] p show ?thesis using f by auto
qed

lemma makeMove_wf:
  assumes wf: "wfBoard (board st)" and ep: "epOk (enPassantTarget st)"
    and ok: "isValidMoveAttempt (board st) frm to (currentPlayer st) (enPassantTarget st) (moveHistory st) = Some True"
  shows "\<exists>st' piece.
           makeMove st frm to = Some st'
         \<and> cellAt (board st) frm = Some piece
         \<and> board st' = finalBoard (board st) (enPassantTarget st) piece frm to
         \<and> currentPlayer st' = opponentOf (currentPlayer st)
         \<and> enPassantTarget st' = nextEnPassantTarget piece frm to
         \<and> wfBoard (board st') \<and> epOk (enPassantTarget st')
         \<and> gameStatus st' =
             (let chk = inCheck (board st') (currentPlayer st');
                  stuck = (\<forall>sq\<in>set boardSquares.
                     getValidMoves (board st') sq (currentPlayer st') (enPassantTarget st') (moveHistory st)
                       = Some [])
              in if chk \<and> stuck then Checkmate else if \<not> chk \<and> stuck then Stalemate
                 else if chk then Check else Playing)"
proof -
  let ?b = "board st"
  from valid_attempt_facts [OF wf ep ok] obtain piece ms where
    f: "isInBounds frm" and p: "cellAt ?b frm = Some piece" and
    ms: "pieceMoves ?b frm piece (enPassantTarget st) (moveHistory st) = Some ms" and
    mem: "to \<in> set ms" and t: "isInBounds to"
    by blast
  let ?nb = "finalBoard ?b (enPassantTarget st) piece frm to"
  let ?nep = "nextEnPassantTarget piece frm to"
  let ?opp = "if currentPlayer st = White then Black else White"
  have mb: "moveBoard ?b (enPassantTarget st) piece frm to = Some ?nb"
  proof (rule moveBoard_wf [OF wf f t])
    fix side assume "castlingOf piece frm to = Some side"
    from castling_rook_present [OF wf f p ms mem this]
    show "cellAt ?b (rookFrom frm side) \<noteq> None" by auto
  qed
  have wfn: "wfBoard ?nb" by (rule wfBoard_finalBoard [OF wf])
  have epn: "epOk ?nep" by (rule nextEnPassantTarget_ok [OF f t])
  have chk: "isKingInCheck ?nb ?opp = Some (inCheck ?nb ?opp)" by (rule isKingInCheck_wf [OF wfn])
  have hv: "hasValidMoves ?nb ?opp ?nep (moveHistory st)
      = Some (\<not> (\<forall>sq\<in>set boardSquares. getValidMoves ?nb sq ?opp ?nep (moveHistory st) = Some []))"
    by (rule hasValidMoves_wf [OF wfn epn])
  have opp: "?opp = opponentOf (currentPlayer st)" by (simp add: opponentOf_def)
  show ?thesis
    unfolding makeMove_def
    by (simp add: boardAt_sq [OF wf f] boardAt_sq [OF wf t] p mb chk hv Let_def wfn epn opp [symmetric])
qed



section \<open>The simulated board against the board after the move\<close>

lemma cellAt_simBoard:
  assumes "wfBoard b" "isInBounds frm" "isInBounds to" "isInBounds sq"
  shows "cellAt (simBoard b frm to) sq
           = (if sq = frm then None else if sq = to then cellAt b frm else cellAt b sq)"
  using assms by (simp add: simBoard_def cellAt_putAt wfBoard_putAt)

lemma cellAt_castledBoard:
  assumes "wfBoard b" "isInBounds frm" "isInBounds sq"
  shows "cellAt (castledBoard b piece frm to) sq
           = (case castlingOf piece frm to of
                None \<Rightarrow> cellAt b sq
              | Some side \<Rightarrow>
                  if sq = rookFrom frm side then None
                  else if sq = rookTo frm side
                       then map_option (\<lambda>r. r\<lparr>hasMoved := True\<rparr>) (cellAt b (rookFrom frm side))
                       else cellAt b sq)"
  using assms
  by (simp add: castledBoard_def cellAt_putAt wfBoard_putAt rook_inBounds split: option.splits)

lemma cellAt_passantBoard:
  assumes "wfBoard b" "isInBounds frm" "isInBounds to" "isInBounds sq"
  shows "cellAt (passantBoard b ep piece frm to) sq
           = (if passantOf piece ep to \<and> sq = \<lparr>row = row frm, col = col to\<rparr> then None
              else cellAt (castledBoard b piece frm to) sq)"
proof -
  have "isInBounds \<lparr>row = row frm, col = col to\<rparr>"
    using assms(2,3) by (simp add: isInBounds_def)
  with assms show ?thesis
    by (simp add: passantBoard_def cellAt_putAt wfBoard_castledBoard)
qed

lemma cellAt_finalBoard:
  assumes "wfBoard b" "isInBounds frm" "isInBounds to" "isInBounds sq"
  shows "cellAt (finalBoard b ep piece frm to) sq
           = (if sq = frm then None else if sq = to then Some (movedPiece piece to)
              else cellAt (passantBoard b ep piece frm to) sq)"
  using assms by (simp add: finalBoard_def cellAt_putAt wfBoard_putAt wfBoard_passantBoard)

lemma movedPiece_props:
  "color (movedPiece piece to) = color piece"
  "hasMoved (movedPiece piece to)"
  "ptype (movedPiece piece to) = King \<longleftrightarrow> ptype piece = King"
  by (auto simp: movedPiece_def promotionOf_def split: option.splits if_splits)

lemma pawnDir_opponent: "pawnDir (opponentOf c) = - pawnDir c"
  by (cases c) (simp_all add: pawnDir_def opponentOf_def)

lemma pawnDir_cases: "pawnDir c = 1 \<or> pawnDir c = - 1"
  by (simp add: pawnDir_def)

lemma initial_row:
  assumes "isInBounds sq" "cellAt createInitialBoard sq = Some p"
  shows "(row sq = 0 \<and> color p = Black) \<or> (row sq = 1 \<and> color p = Black \<and> ptype p = Pawn)
       \<or> (row sq = 6 \<and> color p = White \<and> ptype p = Pawn) \<or> (row sq = 7 \<and> color p = White)"
proof -
  from assms(1) have c: "0 \<le> col sq" "col sq < 8" and r: "0 \<le> row sq" "row sq < 8"
    by (simp_all add: isInBounds_def)
  from c have cc: "col sq = 0 \<or> col sq = 1 \<or> col sq = 2 \<or> col sq = 3 \<or> col sq = 4
      \<or> col sq = 5 \<or> col sq = 6 \<or> col sq = 7" by linarith
  from r consider "row sq = 0" | "row sq = 1" | "row sq = 2" | "row sq = 3" | "row sq = 4"
    | "row sq = 5" | "row sq = 6" | "row sq = 7" by linarith
  then show ?thesis
  proof cases
    case 1
    with assms(2) cc show ?thesis
      by (auto simp: cellAt_def createInitialBoard_def pieceOrder_def)
  next
    case 2
    with assms(2) cc show ?thesis
      by (auto simp: cellAt_def createInitialBoard_def pieceOrder_def)
  next
    case 3
    with assms(2) cc show ?thesis
      by (auto simp: cellAt_def createInitialBoard_def pieceOrder_def)
  next
    case 4
    with assms(2) cc show ?thesis
      by (auto simp: cellAt_def createInitialBoard_def pieceOrder_def)
  next
    case 5
    with assms(2) cc show ?thesis
      by (auto simp: cellAt_def createInitialBoard_def pieceOrder_def)
  next
    case 6
    with assms(2) cc show ?thesis
      by (auto simp: cellAt_def createInitialBoard_def pieceOrder_def)
  next
    case 7
    with assms(2) cc show ?thesis
      by (auto simp: cellAt_def createInitialBoard_def pieceOrder_def)
  next
    case 8
    with assms(2) cc show ?thesis
      by (auto simp: cellAt_def createInitialBoard_def pieceOrder_def)
  qed
qed

lemma strict_between:
  "0 \<le> a \<Longrightarrow> a < 8 \<Longrightarrow> 0 \<le> a + int n * s \<Longrightarrow> a + int n * s < 8 \<Longrightarrow> s = 1 \<or> s = - 1 \<Longrightarrow>
   0 < i \<Longrightarrow> i < n \<Longrightarrow> 0 < a + int i * s \<and> a + int i * s < (7::int)"
  by auto

lemma path_square:
  assumes f: "isInBounds frm" and t: "isInBounds to"
    and al: "row frm = row to \<or> col frm = col to \<or> \<bar>row frm - row to\<bar> = \<bar>col frm - col to\<bar>"
    and i: "0 < i" "i < nat (max \<bar>row to - row frm\<bar> \<bar>col to - col frm\<bar>)"
  defines "s \<equiv> \<lparr>row = row frm + int i * stepOf (row frm) (row to),
                  col = col frm + int i * stepOf (col frm) (col to)\<rparr>"
  shows "isInBounds s \<and> \<not> isCorner s"
proof -
  define rd where "rd = stepOf (row frm) (row to)"
  define cd where "cd = stepOf (col frm) (col to)"
  define n where "n = nat (max \<bar>row to - row frm\<bar> \<bar>col to - col frm\<bar>)"
  have reach: "row to = row frm + int n * rd" "col to = col frm + int n * cd"
    using aligned_reach [OF al] by (simp_all add: n_def rd_def cd_def)
  have steps: "rd = - 1 \<or> rd = 0 \<or> rd = 1" "cd = - 1 \<or> cd = 0 \<or> cd = 1"
    using sgn_cases by (simp_all add: rd_def cd_def stepOf_sgn)
  have fr: "0 \<le> row frm" "row frm < 8" "0 \<le> col frm" "col frm < 8"
    using f by (simp_all add: isInBounds_def)
  have tr: "0 \<le> row frm + int n * rd" "row frm + int n * rd < 8"
    using t reach(1) by (simp_all add: isInBounds_def)
  have tc: "0 \<le> col frm + int n * cd" "col frm + int n * cd < 8"
    using t reach(2) by (simp_all add: isInBounds_def)
  have le: "i \<le> n" and lt: "i < n" using i by (simp_all add: n_def)
  have rb: "0 \<le> row frm + int i * rd \<and> row frm + int i * rd < 8"
    by (rule between_bounds [OF fr(1,2) tr steps(1) le])
  have cb: "0 \<le> col frm + int i * cd \<and> col frm + int i * cd < 8"
    by (rule between_bounds [OF fr(3,4) tc steps(2) le])
  have inb: "isInBounds s" using rb cb by (simp add: s_def isInBounds_def rd_def cd_def)
  from lt have "n \<noteq> 0" by simp
  then have "row to \<noteq> row frm \<or> col to \<noteq> col frm" unfolding n_def by linarith
  then have dir: "rd \<noteq> 0 \<or> cd \<noteq> 0"
    by (auto simp: rd_def cd_def stepOf_sgn sgn_if)
  have "\<not> isCorner s"
  proof (cases "rd = 0")
    case False
    with steps(1) have "rd = 1 \<or> rd = - 1" by auto
    from strict_between [OF fr(1,2) tr this i(1) lt]
    show ?thesis by (simp add: isCorner_def s_def rd_def)
  next
    case True
    with dir steps(2) have "cd = 1 \<or> cd = - 1" by auto
    from strict_between [OF fr(3,4) tc this i(1) lt]
    show ?thesis by (simp add: isCorner_def s_def cd_def)
  qed
  with inb show ?thesis by simp
qed

lemma pathFree_transfer:
  assumes cp: "checkPreserving mover b1 b2"
    and f: "isInBounds frm" and t: "isInBounds to"
    and al: "row frm = row to \<or> col frm = col to \<or> \<bar>row frm - row to\<bar> = \<bar>col frm - col to\<bar>"
    and free: "pathFree b2 frm to"
  shows "pathFree b1 frm to"
  unfolding pathFree_def
proof (intro allI impI)
  fix i :: nat
  assume i: "0 < i \<and> i < nat (max \<bar>row to - row frm\<bar> \<bar>col to - col frm\<bar>)"
  let ?s = "\<lparr>row = row frm + int i * stepOf (row frm) (row to),
             col = col frm + int i * stepOf (col frm) (col to)\<rparr>"
  from path_square [OF f t al] i have s: "isInBounds ?s" "\<not> isCorner ?s" by simp_all
  from free i have "cellAt b2 ?s = None" unfolding pathFree_def by blast
  with cp s show "cellAt b1 ?s = None" unfolding checkPreserving_def by blast
qed

lemma attacks_transfer:
  assumes cp: "checkPreserving mover b1 b2"
    and f: "isInBounds frm" and t: "isInBounds to"
    and same: "ptype q' = ptype q" "color q' = color q"
    and att: "attacks b2 q frm to"
  shows "attacks b1 q' frm to"
proof (cases "ptype q")
  case Rook
  with att same pathFree_transfer [OF cp f t] show ?thesis by (auto simp: attacks_def)
next
  case Bishop
  with att same pathFree_transfer [OF cp f t] show ?thesis by (auto simp: attacks_def)
next
  case Queen
  with att same pathFree_transfer [OF cp f t] show ?thesis by (auto simp: attacks_def)
next
  case King
  with att same show ?thesis by (simp add: attacks_def)
next
  case Knight
  with att same show ?thesis by (simp add: attacks_def)
next
  case Pawn
  with att same show ?thesis by (simp add: attacks_def)
qed

lemma opponentOf_neq: "opponentOf c \<noteq> c"
  by (cases c) (simp_all add: opponentOf_def)

lemma inCheck_transfer:
  assumes cp: "checkPreserving mover b1 b2" and chk: "inCheck b2 mover"
  shows "inCheck b1 mover"
proof -
  have kings: "find (isKingAt b2 mover) boardSquares = find (isKingAt b1 mover) boardSquares"
    using cp by (intro find_cong) (simp_all add: set_boardSquares checkPreserving_def)
  from chk obtain k where k: "find (isKingAt b2 mover) boardSquares = Some k"
    and att: "attackedBy b2 k (opponentOf mover)"
    by (auto simp: inCheck_def split: option.splits)
  from find_inBounds [OF k] have kb: "isInBounds k" by simp
  from att obtain frm q where f: "isInBounds frm" and q: "cellAt b2 frm = Some q"
    and col: "color q = opponentOf mover" and a: "attacks b2 q frm k"
    unfolding attackedBy_def by blast
  from col have "color q \<noteq> mover" using opponentOf_neq by simp
  with cp f q obtain q' where q': "cellAt b1 frm = Some q'" "ptype q' = ptype q" "color q' = color q"
    unfolding checkPreserving_def by blast
  from attacks_transfer [OF cp f kb q'(2,3) a] have "attacks b1 q' frm k" .
  with f q' col have "attackedBy b1 k (opponentOf mover)" unfolding attackedBy_def by auto
  with k kings show ?thesis by (simp add: inCheck_def)
qed

lemma passant_removal_noop:
  assumes wf: "wfBoard b" and f: "isInBounds frm" and t: "isInBounds to"
    and p: "cellAt b frm = Some piece"
    and ms: "pieceMoves b frm piece ep h = Some ms" and mem: "to \<in> set ms"
    and inv: "passantSquaresEmpty b (color piece) ep"
    and sq: "isInBounds sq" "sq \<noteq> frm"
  shows "cellAt (passantBoard b ep piece frm to) sq = cellAt (castledBoard b piece frm to) sq"
proof (cases "passantOf piece ep to \<and> sq = \<lparr>row = row frm, col = col to\<rparr>")
  case False
  then show ?thesis using cellAt_passantBoard [OF wf f t sq(1)] by auto
next
  case True
  then have pawn: "ptype piece = Pawn" and ept: "ep = Some to"
    and sqe: "sq = \<lparr>row = row frm, col = col to\<rparr>"
    by (auto simp: passantOf_def square_eq_iff split: option.splits)
  from inv ept have empty: "cellAt b to = None"
    "cellAt b \<lparr>row = row to + pawnDir (color piece), col = col to\<rparr> = None"
    by (simp_all add: passantSquaresEmpty_def)
  from pawn have nc: "castlingOf piece frm to = None" by (simp add: castlingOf_def)
  from ms pawn have gp: "getPawnMoves b frm ep = Some ms" by (simp add: pieceMoves_def)
  from getPawnMoves_member [OF wf f p gp mem] empty(1) sq(2) sqe
  have "row frm = row to + pawnDir (color piece)"
    by (auto simp: square_eq_iff)
  with sqe empty(2) have "cellAt b sq = None" by simp
  with True nc show ?thesis
    using cellAt_passantBoard [OF wf f t sq(1)] cellAt_castledBoard [OF wf f sq(1)] by simp
qed

lemma castling_at_home:
  assumes wf: "wfBoard b" and home: "unmovedAtHome b"
    and f: "isInBounds frm" and p: "cellAt b frm = Some piece"
    and ms: "pieceMoves b frm piece ep h = Some ms" and mem: "to \<in> set ms"
    and c: "castlingOf piece frm to = Some side"
  shows "isCorner (rookFrom frm side)
         \<and> (\<exists>r. cellAt b (rookFrom frm side) = Some r \<and> ptype r = Rook \<and> color r = color piece)
         \<and> cellAt b (rookTo frm side) = None
         \<and> rookFrom frm side \<noteq> frm \<and> rookTo frm side \<noteq> frm
         \<and> rookFrom frm side \<noteq> to \<and> rookTo frm side \<noteq> to"
proof -
  from castling_rook_present [OF wf f p ms mem c] obtain r where
    nm: "\<not> hasMoved piece" and c4: "col frm = 4"
    and tc: "col to = (if side = Kingside then 6 else 2)"
    and r: "cellAt b (rookFrom frm side) = Some r" "ptype r = Rook" "\<not> hasMoved r"
    and e: "cellAt b (rookTo frm side) = None"
    by blast
  from c have k: "ptype piece = King" by (auto simp: castlingOf_def split: if_splits)
  from home f p nm have ip: "cellAt createInitialBoard frm = Some piece"
    unfolding unmovedAtHome_def by blast
  have rf: "isInBounds (rookFrom frm side)" by (rule rook_inBounds(1) [OF f])
  from home rf r have ir: "cellAt createInitialBoard (rookFrom frm side) = Some r"
    unfolding unmovedAtHome_def by blast
  from initial_row [OF f ip] k
  have rows: "(row frm = 0 \<and> color piece = Black) \<or> (row frm = 7 \<and> color piece = White)" by auto
  from initial_row [OF rf ir] r(2) rows
  have "color r = color piece" by (auto simp: rookFrom_def)
  moreover from rows have "isCorner (rookFrom frm side)" by (auto simp: isCorner_def rookFrom_def)
  moreover from c4 tc have "rookFrom frm side \<noteq> frm \<and> rookTo frm side \<noteq> frm
      \<and> rookFrom frm side \<noteq> to \<and> rookTo frm side \<noteq> to"
    by (auto simp: rookFrom_def rookTo_def square_eq_iff)
  ultimately show ?thesis using r e by blast
qed

lemma sim_final_preserving:
  assumes wf: "wfBoard b" and home: "unmovedAtHome b"
    and inv: "passantSquaresEmpty b (color piece) ep"
    and f: "isInBounds frm" and t: "isInBounds to" and p: "cellAt b frm = Some piece"
    and ms: "pieceMoves b frm piece ep h = Some ms" and mem: "to \<in> set ms"
  shows "checkPreserving (color piece) (simBoard b frm to) (finalBoard b ep piece frm to)"
proof -
  let ?m = "color piece"
  let ?mp = "movedPiece piece to"
  let ?c = "castledBoard b piece frm to"
  have fin: "cellAt (finalBoard b ep piece frm to) sq
      = (if sq = frm then None else if sq = to then Some ?mp else cellAt ?c sq)"
    if "isInBounds sq" for sq
    using cellAt_finalBoard [OF wf f t that] passant_removal_noop [OF wf f t p ms mem inv that]
    by simp
  have sim: "cellAt (simBoard b frm to) sq
      = (if sq = frm then None else if sq = to then Some piece else cellAt b sq)"
    if "isInBounds sq" for sq
    using cellAt_simBoard [OF wf f t that] p by simp
  have cas: "sq = frm \<or> sq = to \<or> cellAt ?c sq = cellAt b sq
      \<or> (isCorner sq \<and> cellAt ?c sq = None
          \<and> (\<exists>r. cellAt b sq = Some r \<and> ptype r = Rook \<and> color r = ?m))
      \<or> (cellAt b sq = None
          \<and> (\<exists>r. cellAt ?c sq = Some r \<and> ptype r = Rook \<and> color r = ?m))"
    if sq: "isInBounds sq" for sq
  proof (cases "castlingOf piece frm to")
    case None
    then show ?thesis using cellAt_castledBoard [OF wf f sq] by simp
  next
    case (Some side)
    from castling_at_home [OF wf home f p ms mem Some] obtain r where
      corner: "isCorner (rookFrom frm side)" and
      r: "cellAt b (rookFrom frm side) = Some r" "ptype r = Rook" "color r = ?m" and
      e: "cellAt b (rookTo frm side) = None"
      by blast
    show ?thesis
    proof (cases "sq = rookFrom frm side")
      case True
      with corner r Some show ?thesis using cellAt_castledBoard [OF wf f sq] by simp
    next
      case nf: False
      show ?thesis
      proof (cases "sq = rookTo frm side")
        case True
        with nf r e Some show ?thesis using cellAt_castledBoard [OF wf f sq] by simp
      next
        case False
        with nf Some show ?thesis using cellAt_castledBoard [OF wf f sq] by simp
      qed
    qed
  qed
  have mp: "color ?mp = ?m" "ptype ?mp = King \<longleftrightarrow> ptype piece = King"
    by (simp_all add: movedPiece_props)
  have one: "\<exists>q'. cellAt (simBoard b frm to) sq = Some q' \<and> ptype q' = ptype q \<and> color q' = color q"
    if "isInBounds sq" "cellAt (finalBoard b ep piece frm to) sq = Some q" "color q \<noteq> ?m" for sq q
  proof -
    from that(2,3) mp have ne: "sq \<noteq> frm" "sq \<noteq> to"
      by (auto simp: fin [OF that(1)] split: if_splits)
    with that(2) have c: "cellAt ?c sq = Some q" by (simp add: fin [OF that(1)])
    from cas [OF that(1)] ne c that(3) have "cellAt b sq = Some q" by auto
    with ne show ?thesis by (simp add: sim [OF that(1)])
  qed
  have two: "isCorner sq"
    if "isInBounds sq" "cellAt (finalBoard b ep piece frm to) sq = None"
      "cellAt (simBoard b frm to) sq \<noteq> None" for sq
    using that cas [OF that(1)] by (auto simp: fin sim split: if_splits)
  have three: "isKingAt (simBoard b frm to) ?m sq = isKingAt (finalBoard b ep piece frm to) ?m sq"
    if "isInBounds sq" for sq
    using cas [OF that] mp by (auto simp: isKingAt_def fin [OF that] sim [OF that])
  from one two three show ?thesis unfolding checkPreserving_def by blast
qed

section \<open>Reachable states\<close>

lemma stateInv_initial: "stateInv initialState"
proof -
  have "wfBoard createInitialBoard"
    by (simp add: wfBoard_def createInitialBoard_def pieceOrder_def)
  then show ?thesis
    by (simp add: stateInv_def initialState_def unmovedAtHome_def passantSquaresEmpty_def)
qed

lemma passantSquaresEmpty_epOk: "passantSquaresEmpty b pl ep \<Longrightarrow> epOk ep"
  by (auto simp: passantSquaresEmpty_def epOk_def split: option.splits)

lemma unmovedAtHome_finalBoard:
  assumes wf: "wfBoard b" and home: "unmovedAtHome b"
    and f: "isInBounds frm" and t: "isInBounds to"
  shows "unmovedAtHome (finalBoard b ep piece frm to)"
  unfolding unmovedAtHome_def
proof (intro allI impI)
  fix sq q
  assume a: "isInBounds sq \<and> cellAt (finalBoard b ep piece frm to) sq = Some q \<and> \<not> hasMoved q"
  then have sq: "isInBounds sq" by simp
  from a have "sq \<noteq> frm" "sq \<noteq> to" and pb: "cellAt (passantBoard b ep piece frm to) sq = Some q"
    using cellAt_finalBoard [OF wf f t sq, of ep piece] movedPiece_props(2) [of piece to]
    by (auto split: if_splits)
  from pb have cb: "cellAt (castledBoard b piece frm to) sq = Some q"
    using cellAt_passantBoard [OF wf f t sq, of ep piece] by (auto split: if_splits)
  from cb a have "cellAt b sq = Some q"
    using cellAt_castledBoard [OF wf f sq, of piece to]
    by (auto split: option.splits if_splits)
  with home sq a show "cellAt createInitialBoard sq = Some q"
    unfolding unmovedAtHome_def by blast
qed

lemma passantSquaresEmpty_finalBoard:
  assumes wf: "wfBoard b" and f: "isInBounds frm" and t: "isInBounds to"
    and p: "cellAt b frm = Some piece"
    and ms: "pieceMoves b frm piece ep h = Some ms" and mem: "to \<in> set ms"
  shows "passantSquaresEmpty (finalBoard b ep piece frm to) (opponentOf (color piece))
           (nextEnPassantTarget piece frm to)"
proof (cases "nextEnPassantTarget piece frm to")
  case None
  then show ?thesis by (simp add: passantSquaresEmpty_def)
next
  case (Some t')
  let ?d = "pawnDir (color piece)"
  from Some have pawn: "ptype piece = Pawn" and two: "\<bar>row to - row frm\<bar> = 2"
    and t': "t' = \<lparr>row = (row frm + row to) div 2, col = col frm\<rparr>"
    by (auto simp: nextEnPassantTarget_def split: if_splits)
  from ms pawn have gp: "getPawnMoves b frm ep = Some ms" by (simp add: pieceMoves_def)
  from getPawnMoves_member [OF wf f p gp mem] two pawnDir_cases [of "color piece"]
  have to: "to = \<lparr>row = row frm + 2 * ?d, col = col frm\<rparr>"
    and one: "isInBounds \<lparr>row = row frm + ?d, col = col frm\<rparr>"
      "cellAt b \<lparr>row = row frm + ?d, col = col frm\<rparr> = None"
    by auto
  from t' to have t'eq: "t' = \<lparr>row = row frm + ?d, col = col frm\<rparr>" by simp
  from pawn have nc: "castlingOf piece frm to = None" by (simp add: castlingOf_def)
  have ne: "t' \<noteq> frm" "t' \<noteq> to"
    using t'eq to pawnDir_cases [of "color piece"] by (auto simp: square_eq_iff)
  have c1: "cellAt (finalBoard b ep piece frm to) t' = None"
    using cellAt_finalBoard [OF wf f t, of t' ep piece] cellAt_passantBoard [OF wf f t, of t' ep piece]
      cellAt_castledBoard [OF wf f, of t' piece to] one ne nc t'eq
    by (auto split: if_splits)
  have behind: "\<lparr>row = row t' + pawnDir (opponentOf (color piece)), col = col t'\<rparr> = frm"
    using t'eq by (simp add: pawnDir_opponent square_eq_iff)
  have c2: "cellAt (finalBoard b ep piece frm to) frm = None"
    using cellAt_finalBoard [OF wf f t f, of ep piece] by simp
  have "isInBounds t'" using one(1) t'eq by simp
  moreover note c1
  moreover have "isInBounds \<lparr>row = row t' + pawnDir (opponentOf (color piece)), col = col t'\<rparr>"
    unfolding behind by (rule f)
  moreover have "cellAt (finalBoard b ep piece frm to)
      \<lparr>row = row t' + pawnDir (opponentOf (color piece)), col = col t'\<rparr> = None"
    unfolding behind by (rule c2)
  ultimately show ?thesis
    unfolding passantSquaresEmpty_def Some by simp
qed

lemma stateInv_makeMove:
  assumes inv: "stateInv st"
    and ok: "isValidMoveAttempt (board st) frm to (currentPlayer st) (enPassantTarget st) (moveHistory st) = Some True"
    and mk: "makeMove st frm to = Some st'"
  shows "stateInv st'"
proof -
  from inv have wf: "wfBoard (board st)" and home: "unmovedAtHome (board st)"
    and pe: "passantSquaresEmpty (board st) (currentPlayer st) (enPassantTarget st)"
    by (simp_all add: stateInv_def)
  have ep: "epOk (enPassantTarget st)" by (rule passantSquaresEmpty_epOk [OF pe])
  from valid_attempt_facts [OF wf ep ok] obtain piece ms where
    f: "isInBounds frm" and p: "cellAt (board st) frm = Some piece" and
    cp: "color piece = currentPlayer st" and
    ms: "pieceMoves (board st) frm piece (enPassantTarget st) (moveHistory st) = Some ms" and
    mem: "to \<in> set ms" and t: "isInBounds to"
    by blast
  from makeMove_wf [OF wf ep ok] mk p have
    b': "board st' = finalBoard (board st) (enPassantTarget st) piece frm to" and
    pl': "currentPlayer st' = opponentOf (currentPlayer st)" and
    ep': "enPassantTarget st' = nextEnPassantTarget piece frm to" and
    wf': "wfBoard (board st')"
    by auto
  from unmovedAtHome_finalBoard [OF wf home f t] b' have "unmovedAtHome (board st')" by simp
  moreover from passantSquaresEmpty_finalBoard [OF wf f t p ms mem] b' pl' ep' cp
  have "passantSquaresEmpty (board st') (currentPlayer st') (enPassantTarget st')" by simp
  ultimately show ?thesis using wf' by (simp add: stateInv_def)
qed

lemma reachable_stateInv: "reachable st \<Longrightarrow> stateInv st"
proof (induction rule: reachable.induct)
  case initial
  show ?case by (rule stateInv_initial)
next
  case (select st s)
  then show ?case by (simp add: stateInv_def)
next
  case (move st frm to st')
  from stateInv_makeMove [OF move.IH move.hyps(2) [unfolded isValidMove_def] move.hyps(3)]
  show ?case .
qed

lemma legal_move_is_valid_attempt:
  assumes wf: "wfBoard b"
    and res: "getValidMoves b frm player ep h = Some legal" and mem: "to \<in> set legal"
  shows "isValidMoveAttempt b frm to player ep h = Some True"
proof -
  from res mem obtain p where "boardAt b (row frm) (col frm) = Some (Some p)" "color p = player"
    by (auto simp: getValidMoves_def split: Option.bind_splits option.splits if_splits)
  with res mem show ?thesis
    by (simp add: isValidMoveAttempt_def list_ex_square)
qed

lemma legal_move_safe:
  assumes inv: "stateInv st"
    and ok: "isValidMoveAttempt (board st) frm to (currentPlayer st) (enPassantTarget st) (moveHistory st) = Some True"
  shows "\<exists>st'. makeMove st frm to = Some st'
           \<and> isKingInCheck (board st') (currentPlayer st) = Some False"
proof -
  from inv have wf: "wfBoard (board st)" and home: "unmovedAtHome (board st)"
    and pe: "passantSquaresEmpty (board st) (currentPlayer st) (enPassantTarget st)"
    by (simp_all add: stateInv_def)
  have ep: "epOk (enPassantTarget st)" by (rule passantSquaresEmpty_epOk [OF pe])
  from valid_attempt_facts [OF wf ep ok] obtain piece ms where
    f: "isInBounds frm" and p: "cellAt (board st) frm = Some piece" and
    cp: "color piece = currentPlayer st" and
    ms: "pieceMoves (board st) frm piece (enPassantTarget st) (moveHistory st) = Some ms" and
    mem: "to \<in> set ms" and t: "isInBounds to" and
    safe: "\<not> inCheck (simBoard (board st) frm to) (currentPlayer st)"
    by blast
  from makeMove_wf [OF wf ep ok] p obtain st' where
    mk: "makeMove st frm to = Some st'" and
    b': "board st' = finalBoard (board st) (enPassantTarget st) piece frm to" and
    wf': "wfBoard (board st')"
    by auto
  from pe cp have pe': "passantSquaresEmpty (board st) (color piece) (enPassantTarget st)" by simp
  from sim_final_preserving [OF wf home pe' f t p ms mem] cp b'
  have "checkPreserving (currentPlayer st) (simBoard (board st) frm to) (board st')" by simp
  from inCheck_transfer [OF this] safe have "\<not> inCheck (board st') (currentPlayer st)" by blast
  with mk show ?thesis by (simp add: isKingInCheck_wf [OF wf'])
qed

text \<open>
  C2 (legal moves never leave the mover in check). In every reachable state, for every
  square the legal-move generator returns for the side to move, \<open>makeMove\<close> returns a new
  state (with the rook relocation of castling and the en passant removal applied), and on
  its board the king of the side that moved is not in check.
\<close>

theorem legal_move_leaves_own_king_safe:
  assumes "reachable st"
    and "getValidMoves (board st) frm (currentPlayer st) (enPassantTarget st) (moveHistory st)
           = Some legal"
    and "to \<in> set legal"
  shows "\<exists>st'. makeMove st frm to = Some st'
           \<and> isKingInCheck (board st') (currentPlayer st) = Some False"
proof -
  from reachable_stateInv [OF assms(1)] have inv: "stateInv st" .
  then have "wfBoard (board st)" by (simp add: stateInv_def)
  from legal_move_is_valid_attempt [OF this assms(2,3)] legal_move_safe [OF inv]
  show ?thesis by blast
qed

theorem legal_move_leaves_own_king_safe_witness:
  "reachable initialState
   \<and> getValidMoves (board initialState) \<lparr>row = 6, col = 4\<rparr> (currentPlayer initialState)
        (enPassantTarget initialState) (moveHistory initialState)
       = Some [\<lparr>row = 5, col = 4\<rparr>, \<lparr>row = 4, col = 4\<rparr>]
   \<and> (\<exists>st'. makeMove initialState \<lparr>row = 6, col = 4\<rparr> \<lparr>row = 4, col = 4\<rparr> = Some st'
            \<and> isKingInCheck (board st') (currentPlayer initialState) = Some False)"
proof -
  have r: "reachable initialState" by (rule reachable.initial)
  have g: "getValidMoves (board initialState) \<lparr>row = 6, col = 4\<rparr> (currentPlayer initialState)
        (enPassantTarget initialState) (moveHistory initialState)
       = Some [\<lparr>row = 5, col = 4\<rparr>, \<lparr>row = 4, col = 4\<rparr>]"
    by code_simp
  have m: "\<lparr>row = 4, col = 4\<rparr> \<in> set [\<lparr>row = 5, col = 4\<rparr>, \<lparr>row = 4, col = 4\<rparr>]" by simp
  from legal_move_leaves_own_king_safe [OF r g m] r g show ?thesis by blast
qed

section \<open>En passant records\<close>

lemma reachable_handlePieceMove:
  assumes "reachable st" "handlePieceMove st frm to = Some st'"
  shows "reachable st'"
proof -
  from assms(2) obtain ok where
    ok: "isValidMoveAttempt (board st) frm to (currentPlayer st) (enPassantTarget st) (moveHistory st) = Some ok"
    by (auto simp: handlePieceMove_def split: Option.bind_splits)
  show ?thesis
  proof (cases ok)
    case False
    with assms ok show ?thesis by (simp add: handlePieceMove_def)
  next
    case True
    with assms(2) ok obtain s where s: "makeMove st frm to = Some s"
      and st': "st' = s\<lparr>selectedSquare := None\<rparr>"
      by (auto simp: handlePieceMove_def split: Option.bind_splits)
    from reachable.move [OF assms(1) _ s] ok True have "reachable s"
      by (simp add: isValidMove_def)
    then show ?thesis unfolding st' by (rule reachable.select)
  qed
qed

lemma reachable_playMoves:
  "reachable st \<Longrightarrow> playMoves st moves = Some st' \<Longrightarrow> reachable st'"
proof (induction moves arbitrary: st)
  case Nil
  then show ?case by simp
next
  case (Cons m moves)
  obtain frm to where m: "m = (frm, to)" by (cases m)
  with Cons.prems(2) obtain s where s: "handlePieceMove st frm to = Some s"
    and rest: "playMoves s moves = Some st'"
    by (auto split: Option.bind_splits)
  from Cons.IH [OF reachable_handlePieceMove [OF Cons.prems(1) s] rest] show ?case .
qed

lemma makeMove_record:
  assumes "makeMove st frm to = Some st'"
  shows "\<exists>piece captured mv.
           boardAt (board st) (row frm) (col frm) = Some (Some piece)
         \<and> boardAt (board st) (row to) (col to) = Some captured
         \<and> moveHistory st' = moveHistory st @ [mv]
         \<and> enPassant mv = passantOf piece (enPassantTarget st) to
         \<and> capturedPiece mv = captured
         \<and> isCapture mv = (captured \<noteq> None \<or> passantOf piece (enPassantTarget st) to)"
  using assms by (auto simp: makeMove_def Let_def split: Option.bind_splits)

lemma capturedPieces_snoc_None:
  "capturedPiece mv = None \<Longrightarrow> capturedPieces (h @ [mv]) = capturedPieces h"
  by (simp add: capturedPieces_def List.map_filter_def)

text \<open>
  C10 (en passant records). In a reachable state, when an accepted move is executed as an
  en passant capture (the appended record has \<open>enPassant\<close> set), that record has
  \<open>isCapture\<close> set and no \<open>capturedPiece\<close>, and the captured-piece tally computed from
  the history is the same after the move as before it.
\<close>

theorem en_passant_record_has_no_captured_piece:
  assumes "reachable st" and "isValidMove st frm to = Some True"
    and "makeMove st frm to = Some st'"
    and "enPassant (last (moveHistory st'))"
  shows "\<exists>mv. moveHistory st' = moveHistory st @ [mv]
           \<and> enPassant mv \<and> isCapture mv \<and> capturedPiece mv = None
           \<and> capturedPieces (moveHistory st') = capturedPieces (moveHistory st)"
proof -
  from reachable_stateInv [OF assms(1)] have wf: "wfBoard (board st)"
    and pe: "passantSquaresEmpty (board st) (currentPlayer st) (enPassantTarget st)"
    by (simp_all add: stateInv_def)
  from makeMove_record [OF assms(3)] obtain piece captured mv where
    cap: "boardAt (board st) (row to) (col to) = Some captured" and
    h: "moveHistory st' = moveHistory st @ [mv]" and
    e: "enPassant mv = passantOf piece (enPassantTarget st) to" and
    c: "capturedPiece mv = captured" and
    i: "isCapture mv = (captured \<noteq> None \<or> passantOf piece (enPassantTarget st) to)"
    by blast
  from assms(4) h e have pass: "passantOf piece (enPassantTarget st) to" by simp
  then have "enPassantTarget st = Some to"
    by (auto simp: passantOf_def square_eq_iff split: option.splits)
  with pe have "isInBounds to" "cellAt (board st) to = None"
    by (simp_all add: passantSquaresEmpty_def)
  with cap boardAt_sq [OF wf, of to] have "captured = None" by simp
  with c have none: "capturedPiece mv = None" by simp
  from capturedPieces_snoc_None [OF none] h
  have "capturedPieces (moveHistory st') = capturedPieces (moveHistory st)" by simp
  with h e i pass none show ?thesis by blast
qed

theorem en_passant_record_has_no_captured_piece_witness:
  "(playMoves initialState passantGame \<bind> (\<lambda>st.
      makeMove st \<lparr>row = 1, col = 1\<rparr> \<lparr>row = 2, col = 0\<rparr> \<bind> (\<lambda>st'.
        Some (isValidMove st \<lparr>row = 1, col = 1\<rparr> \<lparr>row = 2, col = 0\<rparr>,
              enPassant (last (moveHistory st')), isCapture (last (moveHistory st')),
              capturedPiece (last (moveHistory st')),
              capturedPieces (moveHistory st') = capturedPieces (moveHistory st)))))
   = Some (Some True, True, True, None, True)"
proof -
  let ?f = "\<lparr>row = 1, col = 1\<rparr>" and ?t = "\<lparr>row = 2, col = 0\<rparr>"
  have "playMoves initialState passantGame \<noteq> None" by code_simp
  then obtain st where st: "playMoves initialState passantGame = Some st" by blast
  have r: "reachable st" by (rule reachable_playMoves [OF reachable.initial st])
  have "playMoves initialState passantGame \<bind> (\<lambda>s. isValidMove s ?f ?t) = Some True"
    by code_simp
  with st have v: "isValidMove st ?f ?t = Some True" by simp
  have "playMoves initialState passantGame \<bind> (\<lambda>s. makeMove s ?f ?t \<bind>
          (\<lambda>s'. Some (enPassant (last (moveHistory s'))))) = Some True"
    by code_simp
  with st obtain st' where mk: "makeMove st ?f ?t = Some st'"
    and e: "enPassant (last (moveHistory st'))"
    by (auto split: Option.bind_splits)
  from en_passant_record_has_no_captured_piece [OF r v mk e] obtain mv where
    "moveHistory st' = moveHistory st @ [mv]" "enPassant mv" "isCapture mv"
    "capturedPiece mv = None" "capturedPieces (moveHistory st') = capturedPieces (moveHistory st)"
    by blast
  with st mk v show ?thesis by simp
qed

end
